theory Spec2Isabelle
  imports Complex_Main "HOL-Library.Sublist"
begin

text \<open>
  A shallow embedding of \<^verbatim>\<open>server.js\<close>: the signature-checking middleware
  \<^verbatim>\<open>verifySlackSignature\<close> and the class \<^verbatim>\<open>SessionBoardSearch\<close>
  (\<^verbatim>\<open>searchKnowledgeBase\<close>, \<^verbatim>\<open>searchArticles\<close>, \<^verbatim>\<open>contentMatches\<close>,
  \<^verbatim>\<open>extractSnippet\<close>).
\<close>

section \<open>JavaScript strings\<close>

text \<open>
  Strings are character lists and stand for ASCII text: \<open>length\<close> is the JavaScript
  \<^verbatim>\<open>length\<close>, and a string's UTF-8 encoding has one byte per character.
  \<open>isWhiteSpace\<close> lists the ASCII characters that \<^verbatim>\<open>String.prototype.trim\<close>
  strips, \<open>lowerChar\<close> is \<^verbatim>\<open>toLowerCase\<close> on one ASCII character.
  \<open>str_includes\<close>, \<open>indexOf\<close>, \<open>substring\<close> and \<open>splitSpace\<close> are the
  built-ins \<^verbatim>\<open>includes\<close>, \<^verbatim>\<open>indexOf\<close>, \<^verbatim>\<open>substring\<close> and
  \<^verbatim>\<open>split(' ')\<close>: \<open>indexOf\<close> returns \<open>-1\<close> when there is no occurrence,
  \<open>substring\<close> clamps both indices to the string and swaps them when they are out of
  order, and splitting the empty string gives one empty piece.
\<close>

definition isWhiteSpace :: "char \<Rightarrow> bool" where
  "isWhiteSpace c = (c \<in> {CHR '' '', CHR 0x09, CHR 0x0A, CHR 0x0B, CHR 0x0C, CHR 0x0D})"

definition trim :: "string \<Rightarrow> string" where
  "trim s = rev (dropWhile isWhiteSpace (rev (dropWhile isWhiteSpace s)))"

definition lowerChar :: "char \<Rightarrow> char" where
  "lowerChar c =
     (case map_of (zip ''ABCDEFGHIJKLMNOPQRSTUVWXYZ'' ''abcdefghijklmnopqrstuvwxyz'') c of
        None \<Rightarrow> c
      | Some l \<Rightarrow> l)"

definition toLowerCase :: "string \<Rightarrow> string" where
  "toLowerCase s = map lowerChar s"

definition startsWith :: "string \<Rightarrow> string \<Rightarrow> bool" where
  "startsWith s p = (take (length p) s = p)"

fun str_includes :: "string \<Rightarrow> string \<Rightarrow> bool" where
  "str_includes [] q = (q = [])"
| "str_includes (c # cs) q = (startsWith (c # cs) q \<or> str_includes cs q)"

fun indexOfFrom :: "string \<Rightarrow> string \<Rightarrow> nat \<Rightarrow> int" where
  "indexOfFrom [] q i = (if q = [] then int i else - 1)"
| "indexOfFrom (c # cs) q i = (if startsWith (c # cs) q then int i else indexOfFrom cs q (Suc i))"

definition indexOf :: "string \<Rightarrow> string \<Rightarrow> int" where
  "indexOf s q = indexOfFrom s q 0"

definition substring :: "string \<Rightarrow> int \<Rightarrow> int \<Rightarrow> string" where
  "substring s a b =
     (let len = int (length s);
          a' = min (max a 0) len;
          b' = min (max b 0) len;
          lo = min a' b';
          hi = max a' b'
      in take (nat (hi - lo)) (drop (nat lo) s))"

fun splitSpace :: "string \<Rightarrow> string list" where
  "splitSpace [] = [[]]"
| "splitSpace (c # cs) =
     (if c = CHR '' '' then [] # splitSpace cs
      else (case splitSpace cs of [] \<Rightarrow> [[c]] | w # ws \<Rightarrow> (c # w) # ws))"

section \<open>Matching and snippets\<close>

text \<open>
  \<^verbatim>\<open>contentMatches(content, query)\<close> (lines 169-172) and
  \<^verbatim>\<open>extractSnippet(content, query)\<close> (lines 174-181).
\<close>

definition contentMatches :: "string \<Rightarrow> string \<Rightarrow> bool" where
  "contentMatches content query =
     (str_includes content query \<or> list_ex (\<lambda>word. str_includes content word) (splitSpace query))"

definition extractSnippet :: "string \<Rightarrow> string \<Rightarrow> string" where
  "extractSnippet content query =
     (let index = indexOf content query in
      if index = - 1 then []
      else let start = max 0 (index - 100);
               stop = min (int (length content)) (index + 200)
           in trim (substring content start stop) @ ''...'')"

text \<open>
  \<open>occursAt content query i\<close>: the query stands in the content at position \<open>i\<close>.
\<close>

definition occursAt :: "string \<Rightarrow> string \<Rightarrow> nat \<Rightarrow> bool" where
  "occursAt content query i = (i \<le> length content \<and> take (length query) (drop i content) = query)"

text \<open>
  The matching rule in the specification's words, for comparison with \<open>contentMatches\<close>:
  the whitespace-delimited tokens of a query are its maximal runs of characters that are
  not white space, and a text matches when it contains the whole query or one of these
  tokens.
\<close>

fun tokensFrom :: "string \<Rightarrow> string \<Rightarrow> string list" where
  "tokensFrom [] cur = (if cur = [] then [] else [cur])"
| "tokensFrom (c # cs) cur =
     (if isWhiteSpace c then (if cur = [] then tokensFrom cs [] else cur # tokensFrom cs [])
      else tokensFrom cs (cur @ [c]))"

definition whitespaceTokens :: "string \<Rightarrow> string list" where
  "whitespaceTokens q = tokensFrom q []"

definition specMatches :: "string \<Rightarrow> string \<Rightarrow> bool" where
  "specMatches normalizedText query =
     (str_includes normalizedText query \<or>
      list_ex (\<lambda>token. str_includes normalizedText token) (whitespaceTokens query))"


section \<open>Request authentication\<close>

text \<open>
  \<^verbatim>\<open>verifySlackSignature(req, res, next)\<close> (lines 14-50). Three things the
  middleware calls belong to the platform and are parameters of the model, collected in
  a \<open>runtime\<close>: the conversion of the timestamp header to a number in
  \<^verbatim>\<open>currentTime - timestamp\<close> (\<open>toNumber\<close>; \<open>NaN\<close> for a string that is not
  numeric), the hexadecimal HMAC-SHA256 digest of a message under a key
  (\<open>hmacSha256Hex key message\<close>), and the parsing of a form-encoded body into an
  object (\<open>parseForm\<close>). The comparison with 300 is made in exact arithmetic.

  A header is an optional string (\<^verbatim>\<open>undefined\<close> is \<open>None\<close>); \<open>falsy\<close> is the
  test \<^verbatim>\<open>!x\<close> on it. The request body is the text of the received buffer, and
  the signing secret is a string (the environment variable is set). A
  \<open>verdict\<close> records what the middleware did: the response it sent, the call of
  \<^verbatim>\<open>next\<close> or the exception it threw; what \<^verbatim>\<open>req.body\<close> holds
  afterwards; and the lines written to the console.
  \<^verbatim>\<open>crypto.timingSafeEqual\<close> throws a \<^verbatim>\<open>RangeError\<close> with code
  \<^verbatim>\<open>ERR_CRYPTO_TIMING_SAFE_EQUAL_LENGTH\<close> when its two buffers differ in length.
\<close>

datatype jsnum = NaN | Infinite | Finite rat

record 'f runtime =
  toNumber :: "string \<Rightarrow> jsnum"
  hmacSha256Hex :: "string \<Rightarrow> string \<Rightarrow> string"
  parseForm :: "string \<Rightarrow> 'f"

record request =
  signatureHeader :: "string option"
  timestampHeader :: "string option"
  body :: string

datatype 'f reqBody = Raw string | Parsed 'f

datatype outcome = Respond nat string | CallNext | Throw string

record 'f verdict =
  outcome :: outcome
  bodyAfter :: "'f reqBody"
  consoleLog :: "string list"

definition falsy :: "string option \<Rightarrow> bool" where
  "falsy h = (case h of None \<Rightarrow> True | Some v \<Rightarrow> v = [])"

definition outsideWindow :: "int \<Rightarrow> jsnum \<Rightarrow> bool" where
  "outsideWindow currentTime timestamp =
     (case timestamp of
        NaN \<Rightarrow> False
      | Infinite \<Rightarrow> True
      | Finite t \<Rightarrow> \<bar>of_int currentTime - t\<bar> > 300)"

definition timingSafeEqual :: "string \<Rightarrow> string \<Rightarrow> string + bool" where
  "timingSafeEqual a b =
     (if length a \<noteq> length b then Inl ''ERR_CRYPTO_TIMING_SAFE_EQUAL_LENGTH'' else Inr (a = b))"

definition verifySlackSignature ::
  "'f runtime \<Rightarrow> string \<Rightarrow> int \<Rightarrow> request \<Rightarrow> 'f verdict" where
  "verifySlackSignature rt signingSecret currentTime req =
     (if falsy (signatureHeader req) \<or> falsy (timestampHeader req) then
        \<lparr>outcome = Respond 401 ''Unauthorized'', bodyAfter = Raw (body req), consoleLog = []\<rparr>
      else
        let slackSignature = the (signatureHeader req);
            timestamp = the (timestampHeader req)
        in
        if outsideWindow currentTime (toNumber rt timestamp) then
          \<lparr>outcome = Respond 401 ''Request timeout'', bodyAfter = Raw (body req), consoleLog = []\<rparr>
        else
          let rawBody = body req;
              parsed = Parsed (parseForm rt rawBody);
              sigBasestring = ''v0:'' @ timestamp @ '':'' @ rawBody;
              mySignature = ''v0='' @ hmacSha256Hex rt signingSecret sigBasestring
          in
          (case timingSafeEqual mySignature slackSignature of
             Inl code \<Rightarrow> \<lparr>outcome = Throw code, bodyAfter = parsed, consoleLog = []\<rparr>
           | Inr True \<Rightarrow> \<lparr>outcome = CallNext, bodyAfter = parsed, consoleLog = []\<rparr>
           | Inr False \<Rightarrow>
               \<lparr>outcome = Respond 401 ''Unauthorized'', bodyAfter = parsed,
                consoleLog = [''Signature verification failed'']\<rparr>))"

text \<open>
  A concrete runtime for evaluating the middleware on sample requests.
  \<open>decimalToNumber\<close> converts strings of decimal digits as JavaScript does;
  \<open>zeroDigest\<close> stands in for the digest with a constant of the digest's length, 64
  characters; \<open>singleKeyForm\<close> parses a body that has none of the characters
  \<^verbatim>\<open>& = + %\<close>, which is a single key with an empty value.
\<close>

definition isDigit :: "char \<Rightarrow> bool" where
  "isDigit c = (48 \<le> (of_char c :: nat) \<and> (of_char c :: nat) \<le> 57)"

fun digitsValue :: "string \<Rightarrow> nat \<Rightarrow> nat" where
  "digitsValue [] acc = acc"
| "digitsValue (c # cs) acc = digitsValue cs (10 * acc + (of_char c - 48))"

definition decimalToNumber :: "string \<Rightarrow> jsnum" where
  "decimalToNumber s = (if list_all isDigit s then Finite (of_nat (digitsValue s 0)) else NaN)"

definition zeroDigest :: "string \<Rightarrow> string \<Rightarrow> string" where
  "zeroDigest key message = replicate 64 (CHR ''0'')"

definition singleKeyForm :: "string \<Rightarrow> (string \<times> string) list" where
  "singleKeyForm raw = (if raw = [] then [] else [(raw, [])])"

definition demoRuntime :: "(string \<times> string) list runtime" where
  "demoRuntime = \<lparr>toNumber = decimalToNumber, hmacSha256Hex = zeroDigest, parseForm = singleKeyForm\<rparr>"

section \<open>Knowledge-base crawl and search\<close>

text \<open>
  A fetched page is what the code reads from it: its \<^verbatim>\<open>a\<close> elements in document
  order, each with its \<^verbatim>\<open>href\<close> attribute and its text, and the text of its body.
  The network answers the \<open>k\<close>-th request of a session for a URL with a page, or fails
  (\<open>None\<close>: \<^verbatim>\<open>axios.get\<close> throws). A \<open>session\<close> is the state the search
  reads and writes: the cache (a \<^verbatim>\<open>Map\<close> from URL to lowercased body text), the
  requests sent so far, each with whether it succeeded, the console lines, and the number
  of 500 ms delays taken.

  \<open>collectArticles\<close> is the \<^verbatim>\<open>.each\<close> loop of lines 108-117 over the anchors,
  \<open>visit\<close> is one iteration of the loop of \<^verbatim>\<open>searchArticles\<close> (lines 133-164) with
  its \<^verbatim>\<open>try/catch\<close>, and \<open>searchKnowledgeBase\<close> is lines 99-127 with the outer
  \<^verbatim>\<open>try/catch\<close>. A console line holds the fixed text of the source's message and
  the URL, without the text of the caught error.
\<close>

record anchor =
  href :: "string option"
  linkText :: string

record page =
  anchors :: "anchor list"
  bodyText :: string

type_synonym network = "nat \<Rightarrow> string \<Rightarrow> page option"

record article =
  title :: string
  url :: string

record searchResult = article +
  snippet :: string

record session =
  cache :: "string \<rightharpoonup> string"
  requests :: "(string \<times> bool) list"
  console :: "string list"
  delays :: nat

definition baseUrl :: string where
  "baseUrl = ''https://learn.sessionboard.com/en/knowledge-base''"

definition siteOrigin :: string where
  "siteOrigin = ''https://learn.sessionboard.com''"

fun collectArticles :: "anchor list \<Rightarrow> article list \<Rightarrow> article list" where
  "collectArticles [] articles = articles"
| "collectArticles (element # rest) articles =
     (case href element of
        None \<Rightarrow> collectArticles rest articles
      | Some h \<Rightarrow>
          if str_includes h ''/knowledge-base/'' then
            (let t = trim (linkText element) in
             if t \<noteq> [] \<and> h \<noteq> [] \<and> length t > 3 then
               collectArticles rest
                 (articles @ [\<lparr>title = t, url = (if startsWith h ''http'' then h else siteOrigin @ h)\<rparr>])
             else collectArticles rest articles)
          else collectArticles rest articles)"

definition withSnippet :: "article \<Rightarrow> string \<Rightarrow> searchResult" where
  "withSnippet a s = \<lparr>title = title a, url = url a, snippet = s\<rparr>"

definition visit ::
  "network \<Rightarrow> string \<Rightarrow> article \<Rightarrow> session \<times> searchResult list \<Rightarrow> session \<times> searchResult list" where
  "visit net queryLower a st =
     (let s = fst st; results = snd st in
      case cache s (url a) of
        Some content \<Rightarrow>
          (s\<lparr>delays := Suc (delays s)\<rparr>,
           if contentMatches content queryLower
           then results @ [withSnippet a (extractSnippet content queryLower)] else results)
      | None \<Rightarrow>
          (case net (length (requests s)) (url a) of
             None \<Rightarrow>
               (s\<lparr>requests := requests s @ [(url a, False)],
                  console := console s @ [''Error fetching '' @ url a @ '':'']\<rparr>,
                results)
           | Some pg \<Rightarrow>
               (let content = toLowerCase (bodyText pg) in
                (s\<lparr>requests := requests s @ [(url a, True)],
                   cache := (cache s)(url a \<mapsto> content),
                   delays := Suc (delays s)\<rparr>,
                 if contentMatches content queryLower
                 then results @ [withSnippet a (extractSnippet content queryLower)] else results))))"

fun searchLoop ::
  "network \<Rightarrow> string \<Rightarrow> article list \<Rightarrow> session \<times> searchResult list \<Rightarrow> session \<times> searchResult list" where
  "searchLoop net queryLower [] st = st"
| "searchLoop net queryLower (a # rest) st = searchLoop net queryLower rest (visit net queryLower a st)"

definition searchArticles ::
  "network \<Rightarrow> article list \<Rightarrow> string \<Rightarrow> session \<Rightarrow> session \<times> searchResult list" where
  "searchArticles net articles query s =
     (let queryLower = toLowerCase query;
          st = searchLoop net queryLower (take 10 articles) (s, [])
      in (fst st, take 5 (snd st)))"

definition searchKnowledgeBase ::
  "network \<Rightarrow> string \<Rightarrow> session \<Rightarrow> session \<times> searchResult list" where
  "searchKnowledgeBase net query s =
     (case net (length (requests s)) baseUrl of
        None \<Rightarrow>
          (s\<lparr>requests := requests s @ [(baseUrl, False)], console := console s @ [''Search error:'']\<rparr>, [])
      | Some pg \<Rightarrow>
          searchArticles net (collectArticles (anchors pg) []) query
            (s\<lparr>requests := requests s @ [(baseUrl, True)]\<rparr>))"

text \<open>A network on which every request fails, and the state of a new process.\<close>

definition deadNetwork :: network where
  "deadNetwork k u = None"

definition freshSession :: session where
  "freshSession = \<lparr>cache = Map.empty, requests = [], console = [], delays = 0\<rparr>"

text \<open>
  A small site for evaluating the search: a landing page with six links, of which one
  has a text of three characters and one leads outside the knowledge base, two lead to
  the same article, and one leads to an article that cannot be fetched.
\<close>

definition demoLanding :: page where
  "demoLanding =
     \<lparr>anchors =
        [\<lparr>href = Some ''/en/knowledge-base/setup'', linkText = '' Workspace setup ''\<rparr>,
         \<lparr>href = Some ''/en/knowledge-base/broken'', linkText = ''Broken page''\<rparr>,
         \<lparr>href = Some ''https://learn.sessionboard.com/en/knowledge-base/setup'',
          linkText = ''Setup again''\<rparr>,
         \<lparr>href = Some ''/en/knowledge-base/faq'', linkText = ''FAQ''\<rparr>,
         \<lparr>href = Some ''/en/pricing'', linkText = ''Pricing''\<rparr>,
         \<lparr>href = Some ''/en/knowledge-base/billing'', linkText = ''Billing''\<rparr>],
      bodyText = []\<rparr>"

definition demoNetwork :: network where
  "demoNetwork k u =
     (if u = baseUrl then Some demoLanding
      else if u = ''https://learn.sessionboard.com/en/knowledge-base/setup''
        then Some \<lparr>anchors = [], bodyText = ''Setup your Workspace here''\<rparr>
      else if u = ''https://learn.sessionboard.com/en/knowledge-base/billing''
        then Some \<lparr>anchors = [], bodyText = ''Invoices''\<rparr>
      else None)"

text \<open>
  URL resolution in the specification's words, for comparison with the URL that
  \<open>collectArticles\<close> stores. An absolute URL names the scheme \<open>http\<close> or
  \<open>https\<close>. A relative reference is resolved against the site's origin: one that
  begins with \<open>//\<close> takes the scheme of the origin, one that begins with \<open>/\<close> is a
  path on the origin, and any other is a path below the root of the origin. Dot
  segments are left as they are.
\<close>

definition isAbsoluteUrl :: "string \<Rightarrow> bool" where
  "isAbsoluteUrl u = (startsWith u ''http://'' \<or> startsWith u ''https://'')"

definition resolveAgainstOrigin :: "string \<Rightarrow> string" where
  "resolveAgainstOrigin h =
     (if isAbsoluteUrl h then h
      else if startsWith h ''//'' then ''https:'' @ h
      else if startsWith h ''/'' then siteOrigin @ h
      else siteOrigin @ ''/'' @ h)"

section \<open>Properties\<close>

subsection \<open>Strings\<close>

lemma startsWith_iff: "startsWith s p \<longleftrightarrow> (\<exists>post. s = p @ post)"
  unfolding startsWith_def
  by (metis append_eq_conv_conj append_take_drop_id)

lemma str_includes_iff: "str_includes c q \<longleftrightarrow> (\<exists>pre post. c = pre @ q @ post)"
proof (induction c)
  case Nil
  show ?case by auto
next
  case (Cons x xs)
  have "(\<exists>pre post. x # xs = pre @ q @ post) \<longleftrightarrow>
        (\<exists>post. x # xs = q @ post) \<or> (\<exists>pre post. xs = pre @ q @ post)"
    (is "?L \<longleftrightarrow> ?A \<or> ?B")
  proof
    assume ?L
    then obtain pre post where e: "x # xs = pre @ q @ post" by blast
    show "?A \<or> ?B"
    proof (cases pre)
      case Nil
      with e show ?thesis by auto
    next
      case (Cons p ps)
      with e have "xs = ps @ q @ post" by simp
      then show ?thesis by blast
    qed
  next
    assume "?A \<or> ?B"
    then show ?L
    proof
      assume ?A
      then obtain post where "x # xs = [] @ q @ post" by auto
      then show ?L by blast
    next
      assume ?B
      then obtain pre post where "xs = pre @ q @ post" by blast
      then have "x # xs = (x # pre) @ q @ post" by simp
      then show ?L by blast
    qed
  qed
  with Cons show ?case by (simp add: startsWith_iff)
qed

lemma str_includes_Nil: "str_includes c []"
proof -
  have "c = [] @ [] @ c" by simp
  then show ?thesis unfolding str_includes_iff by blast
qed

lemma splitSpace_not_Nil: "splitSpace q \<noteq> []"
  by (induction q) (auto split: list.splits)

lemma splitSpace_append_space:
  "splitSpace (xs @ CHR '' '' # ys) = splitSpace xs @ splitSpace ys"
proof (induction xs)
  case Nil
  show ?case by simp
next
  case (Cons x xs)
  then show ?case
    using splitSpace_not_Nil [of xs]
    by (cases "splitSpace xs") auto
qed

lemma splitSpace_no_space: "CHR '' '' \<notin> set t \<Longrightarrow> splitSpace t = [t]"
  by (induction t) auto

lemma splitSpace_last_Nil: "splitSpace (xs @ '' '') = splitSpace xs @ [[]]"
  using splitSpace_append_space [of xs "[]"] by simp

lemma splitSpace_piece:
  "t \<in> set (splitSpace q) \<longleftrightarrow>
     (\<exists>a b. q = a @ t @ b \<and> CHR '' '' \<notin> set t \<and>
            (a = [] \<or> last a = CHR '' '') \<and> (b = [] \<or> hd b = CHR '' ''))"
  (is "?L q \<longleftrightarrow> ?R q")
proof
  show "?L q \<Longrightarrow> ?R q"
  proof (induction q rule: length_induct)
    case (1 q)
    show ?case
    proof (cases "CHR '' '' \<in> set q")
      case False
      with 1(2) have "t = q" by (simp add: splitSpace_no_space)
      with False have "q = [] @ t @ [] \<and> CHR '' '' \<notin> set t" by simp
      then show ?thesis by blast
    next
      case True
      then obtain a b where q: "q = a @ CHR '' '' # b" and a: "CHR '' '' \<notin> set a"
        by (meson split_list_first)
      then have sp: "splitSpace q = a # splitSpace b"
        by (simp add: splitSpace_append_space splitSpace_no_space)
      from 1(2) sp consider "t = a" | "t \<in> set (splitSpace b)" by auto
      then show ?thesis
      proof cases
        case 1
        with q a have "q = [] @ t @ (CHR '' '' # b) \<and> CHR '' '' \<notin> set t" by simp
        then show ?thesis by (metis list.sel(1))
      next
        case 2
        have "length b < length q" using q by simp
        with 1(1) 2 obtain c d where b: "b = c @ t @ d" and t: "CHR '' '' \<notin> set t"
          and c: "c = [] \<or> last c = CHR '' ''" and d: "d = [] \<or> hd d = CHR '' ''"
          by blast
        let ?a = "a @ CHR '' '' # c"
        have "q = ?a @ t @ d" using q b by simp
        moreover have "last ?a = CHR '' ''" using c by auto
        ultimately show ?thesis using t d by blast
      qed
    qed
  qed
next
  assume "?R q"
  then obtain a b where q: "q = a @ t @ b" and t: "CHR '' '' \<notin> set t"
    and a: "a = [] \<or> last a = CHR '' ''" and b: "b = [] \<or> hd b = CHR '' ''"
    by blast
  have tb: "t \<in> set (splitSpace (t @ b))"
  proof (cases b)
    case Nil
    with t show ?thesis by (simp add: splitSpace_no_space)
  next
    case (Cons x b')
    with b have "t @ b = t @ CHR '' '' # b'" by simp
    with t show ?thesis by (simp add: splitSpace_append_space splitSpace_no_space)
  qed
  show "?L q"
  proof (cases "a = []")
    case True
    with q tb show ?thesis by simp
  next
    case False
    with a have "a = butlast a @ [CHR '' '']" by (metis append_butlast_last_id)
    then have "q = butlast a @ CHR '' '' # (t @ b)" using q by (metis append.assoc append_Cons append_Nil)
    then show ?thesis using tb by (simp add: splitSpace_append_space)
  qed
qed


lemma indexOfFrom_miss: "indexOfFrom s q k = - 1 \<longleftrightarrow> \<not> str_includes s q"
  by (induction s arbitrary: k) auto

lemma indexOfFrom_hit:
  "str_includes s q \<Longrightarrow>
     \<exists>i. indexOfFrom s q k = int (k + i) \<and> occursAt s q i \<and> (\<forall>j<i. \<not> occursAt s q j)"
proof (induction s arbitrary: k)
  case Nil
  then show ?case by (simp add: occursAt_def)
next
  case (Cons x xs)
  show ?case
  proof (cases "startsWith (x # xs) q")
    case True
    then have "indexOfFrom (x # xs) q k = int (k + 0) \<and> occursAt (x # xs) q 0"
      by (simp add: occursAt_def startsWith_def)
    then show ?thesis by (metis not_less_zero)
  next
    case False
    with Cons.prems have "str_includes xs q" by simp
    from Cons.IH [OF this, of "Suc k"] obtain i where
      i: "indexOfFrom xs q (Suc k) = int (Suc k + i)" "occursAt xs q i" "\<forall>j<i. \<not> occursAt xs q j"
      by blast
    have 0: "\<not> occursAt (x # xs) q 0" using False by (simp add: occursAt_def startsWith_def)
    have "indexOfFrom (x # xs) q k = int (k + Suc i)" using False i(1) by simp
    moreover have "occursAt (x # xs) q (Suc i)" using i(2) by (simp add: occursAt_def)
    moreover have "\<forall>j<Suc i. \<not> occursAt (x # xs) q j"
    proof (intro allI impI)
      fix j assume "j < Suc i"
      then show "\<not> occursAt (x # xs) q j"
        using 0 i(3) by (cases j) (auto simp: occursAt_def)
    qed
    ultimately show ?thesis by blast
  qed
qed

lemma occursAt_includes: "occursAt s q i \<Longrightarrow> str_includes s q"
proof -
  assume "occursAt s q i"
  then have "s = take i s @ q @ drop (length q) (drop i s)"
    unfolding occursAt_def by (metis append_take_drop_id)
  then show ?thesis unfolding str_includes_iff by blast
qed

lemma str_includes_occurs: "str_includes s q \<longleftrightarrow> (\<exists>i. occursAt s q i)"
  using indexOfFrom_hit [of s q 0] occursAt_includes by blast

lemma indexOf_first:
  assumes "occursAt s q i" "\<forall>j<i. \<not> occursAt s q j"
  shows "indexOf s q = int i"
proof -
  from assms(1) have "str_includes s q" by (rule occursAt_includes)
  from indexOfFrom_hit [OF this, of 0] obtain i' where
    i': "indexOfFrom s q 0 = int i'" "occursAt s q i'" "\<forall>j<i'. \<not> occursAt s q j"
    by auto
  with assms have "i = i'" by (meson linorder_neqE_nat)
  with i'(1) show ?thesis by (simp add: indexOf_def)
qed

lemma indexOf_found:
  "indexOf s q = int i \<Longrightarrow> occursAt s q i \<and> (\<forall>j<i. \<not> occursAt s q j)"
proof -
  assume a: "indexOf s q = int i"
  then have "indexOfFrom s q 0 \<noteq> - 1" by (simp add: indexOf_def)
  then have "str_includes s q" by (simp add: indexOfFrom_miss)
  from indexOfFrom_hit [OF this, of 0] a show ?thesis by (auto simp: indexOf_def)
qed

lemma substring_nat:
  assumes "lo \<le> hi" "hi \<le> length s"
  shows "substring s (int lo) (int hi) = take (hi - lo) (drop lo s)"
proof -
  have a: "min (max (int lo) 0) (int (length s)) = int lo" using assms by simp
  have b: "min (max (int hi) 0) (int (length s)) = int hi" using assms by simp
  have c: "min (int lo) (int hi) = int lo" "max (int lo) (int hi) = int hi" using assms by simp_all
  have d: "nat (int hi - int lo) = hi - lo" using assms by simp
  show ?thesis unfolding substring_def Let_def a b c d by simp
qed

lemma substring_slice:
  assumes "i \<le> length s"
  shows "substring s (max 0 (int i - 100)) (min (int (length s)) (int i + 200)) =
     take (min (length s) (i + 200) - (i - 100)) (drop (i - 100) s)"
proof -
  have a: "max 0 (int i - 100) = int (i - 100)" by auto
  have b: "min (int (length s)) (int i + 200) = int (min (length s) (i + 200))" by auto
  have le: "i - 100 \<le> min (length s) (i + 200)" using assms by auto
  have le2: "min (length s) (i + 200) \<le> length s" by simp
  show ?thesis unfolding a b by (rule substring_nat [OF le le2])
qed

subsection \<open>Claims about matching and snippets\<close>

text \<open>
  C5, as amended. \<open>contentMatches content query\<close> is true exactly when the content
  contains the whole query, or contains one of the pieces into which the query falls
  when it is cut at every single space character: a piece is a stretch of the query
  without a space that is bounded on each side by a space or by an end of the query,
  and it may be empty. Otherwise the result is false.
\<close>

theorem contentMatches_space_pieces:
  "contentMatches content query \<longleftrightarrow>
     (\<exists>pre post. content = pre @ query @ post) \<or>
     (\<exists>t a b pre post.
        query = a @ t @ b \<and> CHR '' '' \<notin> set t \<and>
        (a = [] \<or> last a = CHR '' '') \<and> (b = [] \<or> hd b = CHR '' '') \<and>
        content = pre @ t @ post)"
proof -
  have "list_ex (\<lambda>word. str_includes content word) (splitSpace query) \<longleftrightarrow>
        (\<exists>t. t \<in> set (splitSpace query) \<and> (\<exists>pre post. content = pre @ t @ post))"
    by (auto simp: list_ex_iff str_includes_iff)
  also have "\<dots> \<longleftrightarrow>
        (\<exists>t a b pre post.
           query = a @ t @ b \<and> CHR '' '' \<notin> set t \<and>
           (a = [] \<or> last a = CHR '' '') \<and> (b = [] \<or> hd b = CHR '' '') \<and>
           content = pre @ t @ post)"
    unfolding splitSpace_piece by blast
  finally show ?thesis
    unfolding contentMatches_def str_includes_iff by simp
qed

theorem contentMatches_space_pieces_witness:
  "contentMatches ''setup your workspace here'' ''workspace settings''"
proof -
  have "''workspace settings'' = [] @ ''workspace'' @ '' settings'' \<and>
        CHR '' '' \<notin> set ''workspace'' \<and> hd '' settings'' = CHR '' '' \<and>
        ''setup your workspace here'' = ''setup your '' @ ''workspace'' @ '' here''"
    by simp
  then have "\<exists>t a b pre post.
        ''workspace settings'' = a @ t @ b \<and> CHR '' '' \<notin> set t \<and>
        (a = [] \<or> last a = CHR '' '') \<and> (b = [] \<or> hd b = CHR '' '') \<and>
        ''setup your workspace here'' = pre @ t @ post"
    by blast
  then show ?thesis
    using contentMatches_space_pieces
      [of "''setup your workspace here''" "''workspace settings''"]
    by blast
qed

text \<open>
  C5, as stated, fails: the query \<open>''foo ''\<close> ends in a space. It is not a substring of
  \<open>''xyz''\<close> and its only whitespace-delimited token, \<open>''foo''\<close>, is not one either,
  yet \<open>contentMatches\<close> returns true, through the empty piece after the space.
\<close>

theorem contentMatches_trailing_space_counterexample:
  "contentMatches ''xyz'' ''foo '' \<and>
   whitespaceTokens ''foo '' = [''foo''] \<and>
   \<not> str_includes ''xyz'' ''foo '' \<and> \<not> str_includes ''xyz'' ''foo'' \<and>
   \<not> specMatches ''xyz'' ''foo ''"
  by (simp add: contentMatches_def specMatches_def whitespaceTokens_def startsWith_def
      isWhiteSpace_def)

text \<open>
  C6. \<open>extractSnippet content query\<close> is the empty string when the query occurs
  nowhere in the content. When \<open>i\<close> is the position of the first occurrence, it is the
  content from position \<open>i - 100\<close>, or from the start when \<open>i < 100\<close>, up to position
  \<open>i + 200\<close>, or to the end when the content is shorter, trimmed and followed by three
  dots. So a text can match through a token and get an empty snippet: the text
  \<open>''setup your workspace here''\<close> matches the query \<open>''workspace settings''\<close> and its
  snippet is empty.
\<close>

theorem extractSnippet_window:
  "(\<not> (\<exists>i. occursAt content query i) \<longrightarrow> extractSnippet content query = []) \<and>
   (\<forall>i. occursAt content query i \<and> (\<forall>j<i. \<not> occursAt content query j) \<longrightarrow>
      extractSnippet content query =
        trim (take (min (length content) (i + 200) - (i - 100)) (drop (i - 100) content)) @ ''...'') \<and>
   (contentMatches ''setup your workspace here'' ''workspace settings'' \<and>
    extractSnippet ''setup your workspace here'' ''workspace settings'' = [])"
proof (intro conjI impI allI)
  assume "\<not> (\<exists>i. occursAt content query i)"
  then have "\<not> str_includes content query" by (simp add: str_includes_occurs)
  then have "indexOf content query = - 1" by (simp add: indexOf_def indexOfFrom_miss)
  then show "extractSnippet content query = []" by (simp add: extractSnippet_def)
next
  fix i
  assume "occursAt content query i \<and> (\<forall>j<i. \<not> occursAt content query j)"
  then have ix: "indexOf content query = int i" and le: "i \<le> length content"
    by (auto simp: indexOf_first occursAt_def)
  show "extractSnippet content query =
        trim (take (min (length content) (i + 200) - (i - 100)) (drop (i - 100) content)) @ ''...''"
    using substring_slice [OF le] by (simp add: extractSnippet_def ix Let_def)
next
  show "contentMatches ''setup your workspace here'' ''workspace settings''"
    by (simp add: contentMatches_def startsWith_def)
next
  show "extractSnippet ''setup your workspace here'' ''workspace settings'' = []"
    by (simp add: extractSnippet_def indexOf_def startsWith_def)
qed

theorem extractSnippet_window_witness:
  "occursAt ''setup your workspace here'' ''workspace'' 11 \<and>
   extractSnippet ''setup your workspace here'' ''workspace'' = ''setup your workspace here...'' \<and>
   \<not> occursAt ''setup'' ''workspace'' 0 \<and> extractSnippet ''setup'' ''workspace'' = []"
proof -
  let ?c = "''setup your workspace here''" and ?q = "''workspace''"
  have "indexOf ?c ?q = int 11" by (simp add: indexOf_def startsWith_def)
  then have first: "occursAt ?c ?q 11 \<and> (\<forall>j<11. \<not> occursAt ?c ?q j)" by (rule indexOf_found)
  have "trim (take (min (length ?c) (11 + 200) - (11 - 100)) (drop (11 - 100) ?c)) = ?c"
    by (simp add: trim_def isWhiteSpace_def)
  with first extractSnippet_window [of ?c ?q] have a: "extractSnippet ?c ?q = ?c @ ''...''"
    by metis
  have "\<not> str_includes ''setup'' ?q" by (simp add: startsWith_def)
  then have none: "\<not> (\<exists>i. occursAt ''setup'' ?q i)" by (simp add: str_includes_occurs)
  with extractSnippet_window [of "''setup''" ?q] have b: "extractSnippet ''setup'' ?q = []"
    by blast
  from first a b none show ?thesis by simp
qed

text \<open>
  C10. A query that is empty, begins with a space, ends with a space or has two spaces
  in a row is split into pieces of which one is the empty string, and
  \<open>contentMatches\<close> is then true for every content.
\<close>

theorem empty_piece_matches_everything:
  assumes "query = [] \<or> (\<exists>r. query = CHR '' '' # r) \<or> (\<exists>r. query = r @ '' '')
           \<or> (\<exists>a b. query = a @ ''  '' @ b)"
  shows "[] \<in> set (splitSpace query) \<and> contentMatches content query"
proof -
  have "\<exists>a b. query = a @ [] @ b \<and> (a = [] \<or> last a = CHR '' '') \<and> (b = [] \<or> hd b = CHR '' '')"
    using assms
  proof (elim disjE exE)
    assume "query = []"
    then show ?thesis by simp
  next
    fix r assume "query = CHR '' '' # r"
    then have "query = [] @ [] @ (CHR '' '' # r)" by simp
    then show ?thesis by (metis list.sel(1))
  next
    fix r assume "query = r @ '' ''"
    then have "query = (r @ '' '') @ [] @ [] \<and> last (r @ '' '') = CHR '' ''" by simp
    then show ?thesis by blast
  next
    fix a b assume "query = a @ ''  '' @ b"
    then have "query = (a @ '' '') @ [] @ (CHR '' '' # b) \<and> last (a @ '' '') = CHR '' ''" by simp
    then show ?thesis by (metis list.sel(1))
  qed
  then have e: "[] \<in> set (splitSpace query)" by (simp add: splitSpace_piece)
  have "str_includes content []" by (rule str_includes_Nil)
  with e have "list_ex (\<lambda>word. str_includes content word) (splitSpace query)"
    unfolding list_ex_iff by blast
  with e show ?thesis by (simp add: contentMatches_def)
qed

theorem empty_piece_matches_everything_witness:
  "contentMatches ''xyz'' [] \<and> contentMatches ''xyz'' '' billing'' \<and>
   contentMatches ''xyz'' ''billing '' \<and> contentMatches ''xyz'' ''billing  setup'' \<and>
   [] \<in> set (splitSpace ''billing  setup'')"
proof -
  have 1: "contentMatches ''xyz'' []"
    using empty_piece_matches_everything [of "[]" "''xyz''"] by simp
  have 2: "contentMatches ''xyz'' '' billing''"
    using empty_piece_matches_everything [of "'' billing''" "''xyz''"] by simp
  have "''billing '' = ''billing'' @ '' ''" by simp
  then have 3: "contentMatches ''xyz'' ''billing ''"
    using empty_piece_matches_everything [of "''billing ''" "''xyz''"] by blast
  have "''billing  setup'' = ''billing'' @ ''  '' @ ''setup''" by simp
  then have 4: "[] \<in> set (splitSpace ''billing  setup'') \<and> contentMatches ''xyz'' ''billing  setup''"
    using empty_piece_matches_everything [of "''billing  setup''" "''xyz''"] by blast
  from 1 2 3 4 show ?thesis by simp
qed

subsection \<open>Request authentication\<close>

text \<open>
  The three exits of the middleware. With either header missing or empty it answers
  401 \<open>Unauthorized\<close>; with a timestamp outside the window it answers 401
  \<open>Request timeout\<close>; otherwise it parses the body and then compares the signatures.
\<close>

lemma verify_missing:
  "falsy (signatureHeader req) \<or> falsy (timestampHeader req) \<Longrightarrow>
   verifySlackSignature rt secret now req =
     \<lparr>outcome = Respond 401 ''Unauthorized'', bodyAfter = Raw (body req), consoleLog = []\<rparr>"
  by (simp add: verifySlackSignature_def)

lemma verify_stale:
  "\<not> falsy (signatureHeader req) \<Longrightarrow> timestampHeader req = Some ts \<Longrightarrow> ts \<noteq> [] \<Longrightarrow>
   outsideWindow now (toNumber rt ts) \<Longrightarrow>
   verifySlackSignature rt secret now req =
     \<lparr>outcome = Respond 401 ''Request timeout'', bodyAfter = Raw (body req), consoleLog = []\<rparr>"
  by (simp add: verifySlackSignature_def falsy_def)

lemma verify_compare:
  "signatureHeader req = Some sg \<Longrightarrow> sg \<noteq> [] \<Longrightarrow> timestampHeader req = Some ts \<Longrightarrow> ts \<noteq> [] \<Longrightarrow>
   \<not> outsideWindow now (toNumber rt ts) \<Longrightarrow>
   verifySlackSignature rt secret now req =
     (case timingSafeEqual (''v0='' @ hmacSha256Hex rt secret (''v0:'' @ ts @ '':'' @ body req)) sg of
        Inl code \<Rightarrow> \<lparr>outcome = Throw code, bodyAfter = Parsed (parseForm rt (body req)), consoleLog = []\<rparr>
      | Inr True \<Rightarrow> \<lparr>outcome = CallNext, bodyAfter = Parsed (parseForm rt (body req)), consoleLog = []\<rparr>
      | Inr False \<Rightarrow>
          \<lparr>outcome = Respond 401 ''Unauthorized'', bodyAfter = Parsed (parseForm rt (body req)),
           consoleLog = [''Signature verification failed'']\<rparr>)"
  by (simp add: verifySlackSignature_def falsy_def Let_def)

lemma verify_accepts:
  assumes "signatureHeader req = Some sg" "sg \<noteq> []" "timestampHeader req = Some ts" "ts \<noteq> []"
    and "\<not> outsideWindow now (toNumber rt ts)"
    and "sg = ''v0='' @ hmacSha256Hex rt secret (''v0:'' @ ts @ '':'' @ body req)"
  shows "outcome (verifySlackSignature rt secret now req) = CallNext"
  using assms(6) by (simp add: verify_compare [OF assms(1-5)] timingSafeEqual_def)

lemma verify_rejects_same_length:
  assumes "signatureHeader req = Some sg" "sg \<noteq> []" "timestampHeader req = Some ts" "ts \<noteq> []"
    and "\<not> outsideWindow now (toNumber rt ts)"
    and "sg \<noteq> ''v0='' @ hmacSha256Hex rt secret (''v0:'' @ ts @ '':'' @ body req)"
    and "length sg = 3 + length (hmacSha256Hex rt secret (''v0:'' @ ts @ '':'' @ body req))"
  shows "outcome (verifySlackSignature rt secret now req) = Respond 401 ''Unauthorized'' \<and>
         consoleLog (verifySlackSignature rt secret now req) = [''Signature verification failed'']"
  using assms(6,7) by (auto simp add: verify_compare [OF assms(1-5)] timingSafeEqual_def)

lemma demo_num: "toNumber demoRuntime ''1000'' = Finite 1000" "toNumber demoRuntime ''600'' = Finite 600"
  by (simp_all add: demoRuntime_def decimalToNumber_def isDigit_def)

text \<open>
  C1. A signature that differs from the expected one is answered 401
  \<open>Unauthorized\<close> only when it has the expected length (\<open>verify_rejects_same_length\<close>),
  and an equal one is accepted (\<open>verify_accepts\<close>). For a request with both headers
  and a timestamp inside the window whose signature does not have the 67 characters of
  \<open>v0=\<close> and a 64-character digest, the middleware answers nothing: the comparison
  throws \<^verbatim>\<open>ERR_CRYPTO_TIMING_SAFE_EQUAL_LENGTH\<close>.
\<close>

theorem verify_throws_on_length_mismatch:
  assumes "signatureHeader req = Some sg" "sg \<noteq> []" "timestampHeader req = Some ts" "ts \<noteq> []"
    and "\<not> outsideWindow now (toNumber rt ts)"
    and "length (hmacSha256Hex rt secret (''v0:'' @ ts @ '':'' @ body req)) = 64"
    and "length sg \<noteq> 67"
  shows "verifySlackSignature rt secret now req =
           \<lparr>outcome = Throw ''ERR_CRYPTO_TIMING_SAFE_EQUAL_LENGTH'',
            bodyAfter = Parsed (parseForm rt (body req)), consoleLog = []\<rparr>"
  using assms(6,7) by (simp add: verify_compare [OF assms(1-5)] timingSafeEqual_def)

theorem verify_throws_on_length_mismatch_witness:
  "verifySlackSignature demoRuntime ''secret'' 1000
     \<lparr>signatureHeader = Some ''v0=abc'', timestampHeader = Some ''1000'', body = ''ping''\<rparr> =
   \<lparr>outcome = Throw ''ERR_CRYPTO_TIMING_SAFE_EQUAL_LENGTH'',
    bodyAfter = Parsed [(''ping'', [])], consoleLog = []\<rparr>"
proof -
  let ?req = "\<lparr>signatureHeader = Some ''v0=abc'', timestampHeader = Some ''1000'', body = ''ping''\<rparr>"
  have w: "\<not> outsideWindow 1000 (toNumber demoRuntime ''1000'')"
    by (simp add: demo_num outsideWindow_def)
  have d: "length (hmacSha256Hex demoRuntime ''secret'' (''v0:'' @ ''1000'' @ '':'' @ body ?req)) = 64"
    by (simp add: demoRuntime_def zeroDigest_def)
  have "verifySlackSignature demoRuntime ''secret'' 1000 ?req =
           \<lparr>outcome = Throw ''ERR_CRYPTO_TIMING_SAFE_EQUAL_LENGTH'',
            bodyAfter = Parsed (parseForm demoRuntime (body ?req)), consoleLog = []\<rparr>"
    by (rule verify_throws_on_length_mismatch [where sg = "''v0=abc''" and ts = "''1000''", OF _ _ _ _ w d]) simp_all
  then show ?thesis by (simp add: demoRuntime_def singleKeyForm_def)
qed

text \<open>
  C2, as amended. The body stays raw when a header is missing or empty and when the
  timestamp is outside the window. For every other request the body is parsed before
  the signatures are compared, whatever the comparison gives, and the handler is called
  exactly when the signature equals \<open>v0=\<close> followed by the digest of
  \<open>v0:\<close>, the timestamp, \<open>:\<close> and the body text that was parsed.
\<close>

theorem body_parsed_before_comparison:
  "(falsy (signatureHeader req) \<or> falsy (timestampHeader req) \<longrightarrow>
      bodyAfter (verifySlackSignature rt secret now req) = Raw (body req)) \<and>
   (\<forall>ts. timestampHeader req = Some ts \<and> outsideWindow now (toNumber rt ts) \<longrightarrow>
      bodyAfter (verifySlackSignature rt secret now req) = Raw (body req)) \<and>
   (\<forall>sg ts. signatureHeader req = Some sg \<and> sg \<noteq> [] \<and> timestampHeader req = Some ts \<and> ts \<noteq> [] \<and>
      \<not> outsideWindow now (toNumber rt ts) \<longrightarrow>
      bodyAfter (verifySlackSignature rt secret now req) = Parsed (parseForm rt (body req)) \<and>
      (outcome (verifySlackSignature rt secret now req) = CallNext \<longleftrightarrow>
         sg = ''v0='' @ hmacSha256Hex rt secret (''v0:'' @ ts @ '':'' @ body req)))"
proof (intro conjI allI impI)
  assume "falsy (signatureHeader req) \<or> falsy (timestampHeader req)"
  then show "bodyAfter (verifySlackSignature rt secret now req) = Raw (body req)"
    by (simp add: verify_missing)
next
  fix ts
  assume a: "timestampHeader req = Some ts \<and> outsideWindow now (toNumber rt ts)"
  show "bodyAfter (verifySlackSignature rt secret now req) = Raw (body req)"
  proof (cases "falsy (signatureHeader req) \<or> falsy (timestampHeader req)")
    case True
    then show ?thesis by (simp add: verify_missing)
  next
    case False
    with a have "\<not> falsy (signatureHeader req)" "ts \<noteq> []" by (auto simp: falsy_def)
    with a show ?thesis by (simp add: verify_stale)
  qed
next
  fix sg ts
  assume a: "signatureHeader req = Some sg \<and> sg \<noteq> [] \<and> timestampHeader req = Some ts \<and> ts \<noteq> [] \<and>
      \<not> outsideWindow now (toNumber rt ts)"
  then have v: "verifySlackSignature rt secret now req =
     (case timingSafeEqual (''v0='' @ hmacSha256Hex rt secret (''v0:'' @ ts @ '':'' @ body req)) sg of
        Inl code \<Rightarrow> \<lparr>outcome = Throw code, bodyAfter = Parsed (parseForm rt (body req)), consoleLog = []\<rparr>
      | Inr True \<Rightarrow> \<lparr>outcome = CallNext, bodyAfter = Parsed (parseForm rt (body req)), consoleLog = []\<rparr>
      | Inr False \<Rightarrow>
          \<lparr>outcome = Respond 401 ''Unauthorized'', bodyAfter = Parsed (parseForm rt (body req)),
           consoleLog = [''Signature verification failed'']\<rparr>)"
    by (simp add: verify_compare)
  show "bodyAfter (verifySlackSignature rt secret now req) = Parsed (parseForm rt (body req))"
    unfolding v by (auto simp: timingSafeEqual_def split: bool.splits)
  show "outcome (verifySlackSignature rt secret now req) = CallNext \<longleftrightarrow>
         sg = ''v0='' @ hmacSha256Hex rt secret (''v0:'' @ ts @ '':'' @ body req)"
    unfolding v by (auto simp: timingSafeEqual_def split: bool.splits)
qed

theorem body_parsed_before_comparison_witness:
  "verifySlackSignature demoRuntime ''secret'' 1000
     \<lparr>signatureHeader = Some (''v0='' @ replicate 64 (CHR ''0'')), timestampHeader = Some ''1000'',
      body = ''ping''\<rparr> =
     \<lparr>outcome = CallNext, bodyAfter = Parsed [(''ping'', [])], consoleLog = []\<rparr>"
proof -
  let ?sg = "''v0='' @ replicate 64 (CHR ''0'')"
  let ?req = "\<lparr>signatureHeader = Some ?sg, timestampHeader = Some ''1000'', body = ''ping''\<rparr>"
  let ?v = "verifySlackSignature demoRuntime ''secret'' 1000 ?req"
  have "signatureHeader ?req = Some ?sg \<and> ?sg \<noteq> [] \<and> timestampHeader ?req = Some ''1000'' \<and>
        ''1000'' \<noteq> [] \<and> \<not> outsideWindow 1000 (toNumber demoRuntime ''1000'')"
    by (simp add: demo_num outsideWindow_def)
  with body_parsed_before_comparison [of ?req demoRuntime "''secret''" 1000]
  have "bodyAfter ?v = Parsed (parseForm demoRuntime (body ?req)) \<and>
        (outcome ?v = CallNext \<longleftrightarrow>
           ?sg = ''v0='' @ hmacSha256Hex demoRuntime ''secret'' (''v0:'' @ ''1000'' @ '':'' @ body ?req))"
    by blast
  then have "bodyAfter ?v = Parsed [(''ping'', [])] \<and> outcome ?v = CallNext"
    by (simp add: demoRuntime_def singleKeyForm_def zeroDigest_def)
  moreover have "consoleLog ?v = []"
    by (simp add: verifySlackSignature_def falsy_def demo_num outsideWindow_def Let_def
        timingSafeEqual_def demoRuntime_def zeroDigest_def)
  ultimately show ?thesis by (cases ?v) simp
qed

text \<open>
  C2, as stated, fails: a request inside the window whose signature has the right
  length and the wrong value is answered 401 \<open>Unauthorized\<close>, and its body has been
  parsed.
\<close>

theorem body_parsed_on_bad_signature_counterexample:
  "verifySlackSignature demoRuntime ''secret'' 1000
     \<lparr>signatureHeader = Some (''v0='' @ replicate 64 (CHR ''x'')), timestampHeader = Some ''1000'',
      body = ''ping''\<rparr> =
     \<lparr>outcome = Respond 401 ''Unauthorized'', bodyAfter = Parsed [(''ping'', [])],
      consoleLog = [''Signature verification failed'']\<rparr>"
  by (simp add: verifySlackSignature_def falsy_def decimalToNumber_def isDigit_def outsideWindow_def Let_def
        timingSafeEqual_def demoRuntime_def zeroDigest_def singleKeyForm_def)

text \<open>
  C3. A request with both headers present (each with a non-empty value, which is what
  the guard \<^verbatim>\<open>!x\<close> of the middleware takes for present) whose timestamp is a
  number more than 300 seconds from the current time is answered 401
  \<open>Request timeout\<close>, and its body is left raw. A request that lacks the signature
  header or the timestamp header is answered 401 \<open>Unauthorized\<close>, with nothing
  written to the console, and its body is left raw.
\<close>

theorem stale_or_missing_rejected:
  "(\<forall>sg ts t. signatureHeader req = Some sg \<and> sg \<noteq> [] \<and> timestampHeader req = Some ts \<and> ts \<noteq> [] \<and>
       toNumber rt ts = Finite t \<and> \<bar>of_int now - t\<bar> > 300 \<longrightarrow>
     verifySlackSignature rt secret now req =
       \<lparr>outcome = Respond 401 ''Request timeout'', bodyAfter = Raw (body req), consoleLog = []\<rparr>) \<and>
   (signatureHeader req = None \<or> timestampHeader req = None \<longrightarrow>
     verifySlackSignature rt secret now req =
       \<lparr>outcome = Respond 401 ''Unauthorized'', bodyAfter = Raw (body req), consoleLog = []\<rparr>)"
proof (intro conjI allI impI)
  fix sg ts t
  assume a: "signatureHeader req = Some sg \<and> sg \<noteq> [] \<and> timestampHeader req = Some ts \<and> ts \<noteq> [] \<and>
       toNumber rt ts = Finite t \<and> \<bar>of_int now - t\<bar> > 300"
  then have "\<not> falsy (signatureHeader req)" "outsideWindow now (toNumber rt ts)"
    by (simp_all add: falsy_def outsideWindow_def)
  with a show "verifySlackSignature rt secret now req =
       \<lparr>outcome = Respond 401 ''Request timeout'', bodyAfter = Raw (body req), consoleLog = []\<rparr>"
    by (simp add: verify_stale)
next
  assume "signatureHeader req = None \<or> timestampHeader req = None"
  then have "falsy (signatureHeader req) \<or> falsy (timestampHeader req)"
    by (auto simp: falsy_def)
  then show "verifySlackSignature rt secret now req =
       \<lparr>outcome = Respond 401 ''Unauthorized'', bodyAfter = Raw (body req), consoleLog = []\<rparr>"
    by (rule verify_missing)
qed

theorem stale_or_missing_rejected_witness:
  "verifySlackSignature demoRuntime ''secret'' 1000
     \<lparr>signatureHeader = Some (''v0='' @ replicate 64 (CHR ''0'')), timestampHeader = Some ''600'',
      body = ''ping''\<rparr> =
     \<lparr>outcome = Respond 401 ''Request timeout'', bodyAfter = Raw ''ping'', consoleLog = []\<rparr> \<and>
   verifySlackSignature demoRuntime ''secret'' 1000
     \<lparr>signatureHeader = None, timestampHeader = Some ''1000'', body = ''ping''\<rparr> =
     \<lparr>outcome = Respond 401 ''Unauthorized'', bodyAfter = Raw ''ping'', consoleLog = []\<rparr>"
proof -
  let ?stale = "\<lparr>signatureHeader = Some (''v0='' @ replicate 64 (CHR ''0'')),
                 timestampHeader = Some ''600'', body = ''ping''\<rparr>"
  let ?nosig = "\<lparr>signatureHeader = None, timestampHeader = Some ''1000'', body = ''ping''\<rparr>"
  have "signatureHeader ?stale = Some (''v0='' @ replicate 64 (CHR ''0'')) \<and>
        ''v0='' @ replicate 64 (CHR ''0'') \<noteq> [] \<and> timestampHeader ?stale = Some ''600'' \<and> ''600'' \<noteq> [] \<and>
        toNumber demoRuntime ''600'' = Finite 600 \<and> \<bar>of_int 1000 - (600 :: rat)\<bar> > 300"
    by (simp add: demo_num)
  with stale_or_missing_rejected [of ?stale demoRuntime 1000 "''secret''"]
  have 1: "verifySlackSignature demoRuntime ''secret'' 1000 ?stale =
     \<lparr>outcome = Respond 401 ''Request timeout'', bodyAfter = Raw (body ?stale), consoleLog = []\<rparr>"
    by blast
  have "signatureHeader ?nosig = None" by simp
  with stale_or_missing_rejected [of ?nosig demoRuntime 1000 "''secret''"]
  have 2: "verifySlackSignature demoRuntime ''secret'' 1000 ?nosig =
     \<lparr>outcome = Respond 401 ''Unauthorized'', bodyAfter = Raw (body ?nosig), consoleLog = []\<rparr>"
    by blast
  from 1 2 show ?thesis by simp
qed

subsection \<open>Crawl and search\<close>

text \<open>
  The link loop as a filter and a map, the results and requests of the article loop,
  and what the loop does with a URL that is in the cache.
\<close>

lemma truncate_withSnippet: "article.truncate (withSnippet a s) = a"
  by (simp add: withSnippet_def article.truncate_def)

lemma startsWith_http: "startsWith h ''http'' \<longleftrightarrow> take 4 h = ''http''"
  by (simp add: startsWith_def eval_nat_numeral)

lemma collectArticles_acc:
  "collectArticles es acc =
     acc @ map (\<lambda>e. \<lparr>title = trim (linkText e),
                      url = (case href e of None \<Rightarrow> []
                             | Some h \<Rightarrow> if take 4 h = ''http'' then h
                                         else ''https://learn.sessionboard.com'' @ h)\<rparr>)
            (filter (\<lambda>e. case href e of None \<Rightarrow> False
                         | Some h \<Rightarrow> str_includes h ''/knowledge-base/'' \<and> 3 < length (trim (linkText e))) es)"
proof (induction es arbitrary: acc)
  case Nil
  show ?case by simp
next
  case (Cons e es)
  show ?case
  proof (cases "href e")
    case None
    then show ?thesis by (simp add: Cons.IH)
  next
    case (Some h)
    show ?thesis
    proof (cases "str_includes h ''/knowledge-base/'' \<and> 3 < length (trim (linkText e))")
      case False
      then show ?thesis using Some by (auto simp add: Cons.IH Let_def)
    next
      case True
      then have "h \<noteq> []" "trim (linkText e) \<noteq> []" by auto
      with True Some show ?thesis
        by (simp add: Cons.IH [of "acc @ _"] Let_def startsWith_http siteOrigin_def)
    qed
  qed
qed

lemma visit_results:
  "snd (visit net q a st) = snd st \<or>
   (\<exists>s. snd (visit net q a st) = snd st @ [withSnippet a s])"
  by (auto simp add: visit_def Let_def split: option.splits)

lemma visit_requests_length:
  "length (requests (fst (visit net q a st))) \<le> Suc (length (requests (fst st)))"
  by (auto simp add: visit_def Let_def split: option.splits)

lemma searchLoop_append:
  "searchLoop net q (xs @ ys) st = searchLoop net q ys (searchLoop net q xs st)"
  by (induction xs arbitrary: st) auto

lemma searchLoop_results:
  "\<exists>extra. snd (searchLoop net q as st) = snd st @ extra \<and> subseq (map article.truncate extra) as"
proof (induction as arbitrary: st)
  case Nil
  show ?case by simp
next
  case (Cons a as)
  from Cons.IH [of "visit net q a st"] obtain extra where
    e: "snd (searchLoop net q as (visit net q a st)) = snd (visit net q a st) @ extra"
       "subseq (map article.truncate extra) as"
    by blast
  from visit_results [of net q a st] show ?case
  proof
    assume "snd (visit net q a st) = snd st"
    with e have "snd (searchLoop net q (a # as) st) = snd st @ extra \<and>
                 subseq (map article.truncate extra) (a # as)"
      by (simp add: list_emb_Cons)
    then show ?thesis by blast
  next
    assume "\<exists>s. snd (visit net q a st) = snd st @ [withSnippet a s]"
    then obtain s where "snd (visit net q a st) = snd st @ [withSnippet a s]" by blast
    with e have "snd (searchLoop net q (a # as) st) = snd st @ (withSnippet a s # extra) \<and>
                 subseq (map article.truncate (withSnippet a s # extra)) (a # as)"
      by (simp add: truncate_withSnippet)
    then show ?thesis by blast
  qed
qed

lemma searchLoop_requests_length:
  "length (requests (fst (searchLoop net q as st))) \<le> length (requests (fst st)) + length as"
proof (induction as arbitrary: st)
  case Nil
  show ?case by simp
next
  case (Cons a as)
  have "length (requests (fst (searchLoop net q as (visit net q a st))))
        \<le> length (requests (fst (visit net q a st))) + length as"
    by (rule Cons.IH)
  also have "\<dots> \<le> Suc (length (requests (fst st))) + length as"
    using visit_requests_length [of net q a st] by simp
  finally show ?case by simp
qed

lemma searchArticles_order:
  "subseq (map article.truncate (snd (searchArticles net articles query s))) (take 10 articles)"
proof -
  obtain extra where
    e: "snd (searchLoop net (toLowerCase query) (take 10 articles) (s, [])) = [] @ extra"
       "subseq (map article.truncate extra) (take 10 articles)"
    using searchLoop_results [of net "toLowerCase query" "take 10 articles" "(s, [])"] by auto
  have "subseq (take 5 (map article.truncate extra)) (map article.truncate extra)"
    by (metis append_take_drop_id prefix_imp_subseq prefixI)
  with e(2) have "subseq (take 5 (map article.truncate extra)) (take 10 articles)"
    by (rule subseq_order.trans [rotated])
  with e(1) show ?thesis by (simp add: searchArticles_def Let_def take_map)
qed

lemma searchArticles_length: "length (snd (searchArticles net articles query s)) \<le> 5"
  by (simp add: searchArticles_def Let_def)

lemma visit_session:
  "fst (visit net q a st) =
     (case cache (fst st) (url a) of
        Some c \<Rightarrow> (fst st)\<lparr>delays := Suc (delays (fst st))\<rparr>
      | None \<Rightarrow>
          (case net (length (requests (fst st))) (url a) of
             None \<Rightarrow> (fst st)\<lparr>requests := requests (fst st) @ [(url a, False)],
                               console := console (fst st) @ [''Error fetching '' @ url a @ '':'']\<rparr>
           | Some pg \<Rightarrow> (fst st)\<lparr>requests := requests (fst st) @ [(url a, True)],
                                  cache := (cache (fst st))(url a \<mapsto> toLowerCase (bodyText pg)),
                                  delays := Suc (delays (fst st))\<rparr>))"
  by (simp add: visit_def Let_def split: option.splits)

lemma visit_cached:
  assumes "cache (fst st) u = Some c"
  shows "\<exists>new. requests (fst (visit net q a st)) = requests (fst st) @ new \<and> u \<notin> fst ` set new \<and>
               cache (fst (visit net q a st)) u = Some c"
proof (cases "cache (fst st) (url a)")
  case (Some c')
  then show ?thesis using assms by (simp add: visit_session)
next
  case None
  with assms have ne: "url a \<noteq> u" by auto
  show ?thesis
  proof (cases "net (length (requests (fst st))) (url a)")
    case None
    with \<open>cache (fst st) (url a) = None\<close> assms ne show ?thesis by (simp add: visit_session)
  next
    case (Some pg)
    with \<open>cache (fst st) (url a) = None\<close> assms ne show ?thesis by (simp add: visit_session)
  qed
qed

lemma searchLoop_cached:
  "cache (fst st) u = Some c \<Longrightarrow>
   \<exists>new. requests (fst (searchLoop net q as st)) = requests (fst st) @ new \<and> u \<notin> fst ` set new \<and>
         cache (fst (searchLoop net q as st)) u = Some c"
proof (induction as arbitrary: st)
  case Nil
  then show ?case by simp
next
  case (Cons a as)
  from visit_cached [OF Cons.prems, of net q a] obtain n1 where
    v: "requests (fst (visit net q a st)) = requests (fst st) @ n1" "u \<notin> fst ` set n1"
       "cache (fst (visit net q a st)) u = Some c"
    by blast
  from Cons.IH [OF v(3)] obtain n2 where
    l: "requests (fst (searchLoop net q as (visit net q a st))) = requests (fst (visit net q a st)) @ n2"
       "u \<notin> fst ` set n2" "cache (fst (searchLoop net q as (visit net q a st))) u = Some c"
    by blast
  from v l have "requests (fst (searchLoop net q (a # as) st)) = requests (fst st) @ (n1 @ n2) \<and>
        u \<notin> fst ` set (n1 @ n2) \<and> cache (fst (searchLoop net q (a # as) st)) u = Some c"
    by auto
  then show ?case by blast
qed

lemma visit_success:
  "\<exists>new. requests (fst (visit net q a st)) = requests (fst st) @ new \<and>
     ((u, True) \<notin> set new \<or> (new = [(u, True)] \<and> cache (fst (visit net q a st)) u \<noteq> None))"
  by (auto simp add: visit_session split: option.splits)

lemma searchLoop_one_success:
  "\<exists>new. requests (fst (searchLoop net q as st)) = requests (fst st) @ new \<and>
         length (filter (\<lambda>e. e = (u, True)) new) \<le> 1"
proof (induction as arbitrary: st)
  case Nil
  show ?case by simp
next
  case (Cons a as)
  let ?st1 = "visit net q a st"
  from visit_success [of net q a st u] obtain n1 where
    v: "requests (fst ?st1) = requests (fst st) @ n1"
       "(u, True) \<notin> set n1 \<or> (n1 = [(u, True)] \<and> cache (fst ?st1) u \<noteq> None)"
    by blast
  from v(2) show ?case
  proof
    assume no: "(u, True) \<notin> set n1"
    from Cons.IH [of ?st1] obtain n2 where
      l: "requests (fst (searchLoop net q as ?st1)) = requests (fst ?st1) @ n2"
         "length (filter (\<lambda>e. e = (u, True)) n2) \<le> 1"
      by blast
    have "filter (\<lambda>e. e = (u, True)) n1 = []" using no by (auto simp: filter_empty_conv)
    with v(1) l have "requests (fst (searchLoop net q (a # as) st)) = requests (fst st) @ (n1 @ n2) \<and>
        length (filter (\<lambda>e. e = (u, True)) (n1 @ n2)) \<le> 1"
      by simp
    then show ?thesis by blast
  next
    assume yes: "n1 = [(u, True)] \<and> cache (fst ?st1) u \<noteq> None"
    then obtain c where "cache (fst ?st1) u = Some c" by auto
    from searchLoop_cached [OF this, of net q as] obtain n2 where
      l: "requests (fst (searchLoop net q as ?st1)) = requests (fst ?st1) @ n2" "u \<notin> fst ` set n2"
      by blast
    have "filter (\<lambda>e. e = (u, True)) n2 = []" using l(2) by (force simp: filter_empty_conv)
    with v(1) l(1) yes have "requests (fst (searchLoop net q (a # as) st)) = requests (fst st) @ (n1 @ n2) \<and>
        length (filter (\<lambda>e. e = (u, True)) (n1 @ n2)) \<le> 1"
      by simp
    then show ?thesis by blast
  qed
qed

text \<open>
  The search on the sample site: of the four discovered articles, the first and the
  third share a URL and match, the second cannot be fetched, the fourth does not match.
\<close>

lemma demo_search:
  "snd (searchKnowledgeBase demoNetwork ''Workspace'' freshSession) =
     [\<lparr>title = ''Workspace setup'', url = ''https://learn.sessionboard.com/en/knowledge-base/setup'',
       snippet = ''setup your workspace here...''\<rparr>,
      \<lparr>title = ''Setup again'', url = ''https://learn.sessionboard.com/en/knowledge-base/setup'',
       snippet = ''setup your workspace here...''\<rparr>]"
  by code_simp

text \<open>
  C4. \<open>searchKnowledgeBase\<close> and \<open>searchArticles\<close> return at most five results.
  The results, without their snippets, are a subsequence of the first ten articles in
  the order of discovery; the articles after the tenth have no effect on the outcome,
  and one search of a list of articles sends at most ten requests.
\<close>

theorem search_caps_and_order:
  "length (snd (searchKnowledgeBase net query s)) \<le> 5 \<and>
   length (snd (searchArticles net articles query s)) \<le> 5 \<and>
   subseq (map article.truncate (snd (searchArticles net articles query s))) (take 10 articles) \<and>
   searchArticles net articles query s = searchArticles net (take 10 articles) query s \<and>
   length (requests (fst (searchArticles net articles query s))) \<le> length (requests s) + 10 \<and>
   (\<forall>pg. net (length (requests s)) baseUrl = Some pg \<longrightarrow>
      subseq (map article.truncate (snd (searchKnowledgeBase net query s)))
        (take 10 (collectArticles (anchors pg) [])))"
proof (intro conjI allI impI)
  show "length (snd (searchKnowledgeBase net query s)) \<le> 5"
    by (simp add: searchKnowledgeBase_def searchArticles_length split: option.splits)
  show "length (snd (searchArticles net articles query s)) \<le> 5"
    by (rule searchArticles_length)
  show "subseq (map article.truncate (snd (searchArticles net articles query s))) (take 10 articles)"
    by (rule searchArticles_order)
  show "searchArticles net articles query s = searchArticles net (take 10 articles) query s"
    by (simp add: searchArticles_def)
  show "length (requests (fst (searchArticles net articles query s))) \<le> length (requests s) + 10"
    using searchLoop_requests_length [of net "toLowerCase query" "take 10 articles" "(s, [])"]
    by (simp add: searchArticles_def Let_def)
next
  fix pg
  assume "net (length (requests s)) baseUrl = Some pg"
  then show "subseq (map article.truncate (snd (searchKnowledgeBase net query s)))
        (take 10 (collectArticles (anchors pg) []))"
    by (simp add: searchKnowledgeBase_def searchArticles_order)
qed

theorem search_caps_and_order_witness:
  "length (snd (searchKnowledgeBase demoNetwork ''Workspace'' freshSession)) \<le> 5 \<and>
   subseq (map article.truncate (snd (searchKnowledgeBase demoNetwork ''Workspace'' freshSession)))
     (take 10 (collectArticles (anchors demoLanding) []))"
proof -
  have "demoNetwork (length (requests freshSession)) baseUrl = Some demoLanding"
    by (simp add: demoNetwork_def)
  with search_caps_and_order [where net = demoNetwork and query = "''Workspace''" and s = freshSession]
  show ?thesis by blast
qed

text \<open>
  C7. When the request for the landing page fails, \<open>searchKnowledgeBase\<close> returns
  no results and writes \<open>Search error:\<close> to the console: the function returns a list
  in every case. When the request for one article fails, the loop records the error
  on the console, leaves the results as they are and goes on with the articles that
  follow, wherever in the list the article stands.
\<close>

theorem failures_are_skipped:
  "(net (length (requests s)) baseUrl = None \<longrightarrow>
      snd (searchKnowledgeBase net query s) = [] \<and>
      console (fst (searchKnowledgeBase net query s)) = console s @ [''Search error:'']) \<and>
   (\<forall>s1 r1. searchLoop net q before st = (s1, r1) \<and> cache s1 (url a) = None \<and>
        net (length (requests s1)) (url a) = None \<longrightarrow>
      searchLoop net q (before @ a # after) st =
        searchLoop net q after
          (s1\<lparr>requests := requests s1 @ [(url a, False)],
              console := console s1 @ [''Error fetching '' @ url a @ '':'']\<rparr>, r1))"
proof (intro conjI allI impI)
  assume "net (length (requests s)) baseUrl = None"
  then show "snd (searchKnowledgeBase net query s) = []"
    and "console (fst (searchKnowledgeBase net query s)) = console s @ [''Search error:'']"
    by (simp_all add: searchKnowledgeBase_def)
next
  fix s1 r1
  assume a: "searchLoop net q before st = (s1, r1) \<and> cache s1 (url a) = None \<and>
        net (length (requests s1)) (url a) = None"
  then have "visit net q a (s1, r1) =
      (s1\<lparr>requests := requests s1 @ [(url a, False)],
          console := console s1 @ [''Error fetching '' @ url a @ '':'']\<rparr>, r1)"
    by (simp add: visit_def Let_def)
  with a show "searchLoop net q (before @ a # after) st =
        searchLoop net q after
          (s1\<lparr>requests := requests s1 @ [(url a, False)],
              console := console s1 @ [''Error fetching '' @ url a @ '':'']\<rparr>, r1)"
    by (simp add: searchLoop_append)
qed

theorem failures_are_skipped_witness:
  "snd (searchKnowledgeBase deadNetwork ''Workspace'' freshSession) = [] \<and>
   searchLoop demoNetwork ''workspace''
     ([\<lparr>title = ''Workspace setup'', url = ''https://learn.sessionboard.com/en/knowledge-base/setup''\<rparr>] @
      \<lparr>title = ''Broken page'', url = ''https://learn.sessionboard.com/en/knowledge-base/broken''\<rparr> #
      [\<lparr>title = ''Billing'', url = ''https://learn.sessionboard.com/en/knowledge-base/billing''\<rparr>])
     (freshSession, []) =
   searchLoop demoNetwork ''workspace''
     [\<lparr>title = ''Billing'', url = ''https://learn.sessionboard.com/en/knowledge-base/billing''\<rparr>]
     ((fst (searchLoop demoNetwork ''workspace''
         [\<lparr>title = ''Workspace setup'', url = ''https://learn.sessionboard.com/en/knowledge-base/setup''\<rparr>]
         (freshSession, [])))
        \<lparr>requests :=
           [(''https://learn.sessionboard.com/en/knowledge-base/setup'', True),
            (''https://learn.sessionboard.com/en/knowledge-base/broken'', False)],
         console := [''Error fetching https://learn.sessionboard.com/en/knowledge-base/broken:'']\<rparr>,
      [\<lparr>title = ''Workspace setup'', url = ''https://learn.sessionboard.com/en/knowledge-base/setup'',
        snippet = ''setup your workspace here...''\<rparr>])"
proof -
  let ?a1 = "\<lparr>title = ''Workspace setup'', url = ''https://learn.sessionboard.com/en/knowledge-base/setup''\<rparr>"
  let ?a2 = "\<lparr>title = ''Broken page'', url = ''https://learn.sessionboard.com/en/knowledge-base/broken''\<rparr>"
  let ?a3 = "\<lparr>title = ''Billing'', url = ''https://learn.sessionboard.com/en/knowledge-base/billing''\<rparr>"
  let ?st1 = "searchLoop demoNetwork ''workspace'' [?a1] (freshSession, [])"
  have "deadNetwork (length (requests freshSession)) baseUrl = None"
    by (simp add: deadNetwork_def)
  with failures_are_skipped [where net = deadNetwork and s = freshSession and query = "''Workspace''"]
  have 1: "snd (searchKnowledgeBase deadNetwork ''Workspace'' freshSession) = []"
    by blast
  have r: "requests (fst ?st1) = [(''https://learn.sessionboard.com/en/knowledge-base/setup'', True)]"
    by code_simp
  have c: "console (fst ?st1) = []"
    by code_simp
  have rs: "snd ?st1 =
      [\<lparr>title = ''Workspace setup'', url = ''https://learn.sessionboard.com/en/knowledge-base/setup'',
        snippet = ''setup your workspace here...''\<rparr>]"
    by code_simp
  have h1: "cache (fst ?st1) (url ?a2) = None"
    by code_simp
  have h2: "demoNetwork (length (requests (fst ?st1))) (url ?a2) = None"
    by code_simp
  have "?st1 = (fst ?st1, snd ?st1)" by simp
  with h1 h2
    failures_are_skipped [where net = demoNetwork and q = "''workspace''" and before = "[?a1]"
      and st = "(freshSession, [])" and a = ?a2 and after = "[?a3]"]
  have 2: "searchLoop demoNetwork ''workspace'' ([?a1] @ ?a2 # [?a3]) (freshSession, []) =
     searchLoop demoNetwork ''workspace'' [?a3]
       ((fst ?st1)\<lparr>requests := requests (fst ?st1) @ [(url ?a2, False)],
                   console := console (fst ?st1) @ [''Error fetching '' @ url ?a2 @ '':'']\<rparr>, snd ?st1)"
    by blast
  show ?thesis
    using 1 2 unfolding r c rs by simp
qed

lemma stored_url_resolved:
  assumes "isAbsoluteUrl h \<or> (startsWith h ''/'' \<and> \<not> startsWith h ''//'')"
  shows "(if take 4 h = ''http'' then h else ''https://learn.sessionboard.com'' @ h) = resolveAgainstOrigin h \<and>
         isAbsoluteUrl (resolveAgainstOrigin h)"
proof (cases "isAbsoluteUrl h")
  case True
  then have "take 4 h = ''http''"
    by (auto simp: isAbsoluteUrl_def startsWith_iff)
  with True show ?thesis by (simp add: resolveAgainstOrigin_def)
next
  case False
  with assms have r: "startsWith h ''/''" "\<not> startsWith h ''//''" by auto
  then have "take 4 h \<noteq> ''http''" by (auto simp: startsWith_iff)
  moreover have "isAbsoluteUrl (siteOrigin @ h)"
    by (simp add: isAbsoluteUrl_def startsWith_def siteOrigin_def)
  ultimately show ?thesis using False r
    by (simp add: resolveAgainstOrigin_def siteOrigin_def)
qed

text \<open>
  C8, as amended. The discovered articles are, in document order, the links whose
  \<open>href\<close> contains \<open>/knowledge-base/\<close> and whose text, trimmed, is longer than three
  characters. The title is the trimmed text; the URL is the \<open>href\<close> itself when it
  begins with \<open>http\<close>, and otherwise the site's origin followed by the \<open>href\<close>, so
  that every stored URL begins with \<open>http\<close>. When every \<open>href\<close> on the page is an
  absolute URL or begins with a single \<open>/\<close>, each stored URL is the \<open>href\<close> resolved
  against the site's origin, and is absolute.
\<close>

theorem discovered_links:
  "collectArticles es [] =
     map (\<lambda>e. \<lparr>title = trim (linkText e),
               url = (case href e of None \<Rightarrow> []
                      | Some h \<Rightarrow> if take 4 h = ''http'' then h
                                  else ''https://learn.sessionboard.com'' @ h)\<rparr>)
       (filter (\<lambda>e. case href e of None \<Rightarrow> False
                    | Some h \<Rightarrow> str_includes h ''/knowledge-base/'' \<and> 3 < length (trim (linkText e))) es) \<and>
   (\<forall>a \<in> set (collectArticles es []). take 4 (url a) = ''http'') \<and>
   ((\<forall>e \<in> set es. \<forall>h. href e = Some h \<longrightarrow>
        isAbsoluteUrl h \<or> (startsWith h ''/'' \<and> \<not> startsWith h ''//'')) \<longrightarrow>
    collectArticles es [] =
      map (\<lambda>e. \<lparr>title = trim (linkText e),
                url = (case href e of None \<Rightarrow> [] | Some h \<Rightarrow> resolveAgainstOrigin h)\<rparr>)
        (filter (\<lambda>e. case href e of None \<Rightarrow> False
                     | Some h \<Rightarrow> str_includes h ''/knowledge-base/'' \<and> 3 < length (trim (linkText e))) es) \<and>
    (\<forall>a \<in> set (collectArticles es []). isAbsoluteUrl (url a)))"
proof (intro conjI impI)
  show eq: "collectArticles es [] =
     map (\<lambda>e. \<lparr>title = trim (linkText e),
               url = (case href e of None \<Rightarrow> []
                      | Some h \<Rightarrow> if take 4 h = ''http'' then h
                                  else ''https://learn.sessionboard.com'' @ h)\<rparr>)
       (filter (\<lambda>e. case href e of None \<Rightarrow> False
                    | Some h \<Rightarrow> str_includes h ''/knowledge-base/'' \<and> 3 < length (trim (linkText e))) es)"
    using collectArticles_acc [of es "[]"] by simp
  show "\<forall>a \<in> set (collectArticles es []). take 4 (url a) = ''http''"
    unfolding eq by (auto split: option.splits)
  assume ok: "\<forall>e \<in> set es. \<forall>h. href e = Some h \<longrightarrow>
        isAbsoluteUrl h \<or> (startsWith h ''/'' \<and> \<not> startsWith h ''//'')"
  show eq2: "collectArticles es [] =
      map (\<lambda>e. \<lparr>title = trim (linkText e),
                url = (case href e of None \<Rightarrow> [] | Some h \<Rightarrow> resolveAgainstOrigin h)\<rparr>)
        (filter (\<lambda>e. case href e of None \<Rightarrow> False
                     | Some h \<Rightarrow> str_includes h ''/knowledge-base/'' \<and> 3 < length (trim (linkText e))) es)"
    unfolding eq
  proof (rule map_cong [OF refl])
    fix e
    assume "e \<in> set (filter (\<lambda>e. case href e of None \<Rightarrow> False
                     | Some h \<Rightarrow> str_includes h ''/knowledge-base/'' \<and> 3 < length (trim (linkText e))) es)"
    then have "e \<in> set es" by simp
    show "\<lparr>title = trim (linkText e),
           url = (case href e of None \<Rightarrow> []
                  | Some h \<Rightarrow> if take 4 h = ''http'' then h
                              else ''https://learn.sessionboard.com'' @ h)\<rparr> =
          \<lparr>title = trim (linkText e),
           url = (case href e of None \<Rightarrow> [] | Some h \<Rightarrow> resolveAgainstOrigin h)\<rparr>"
    proof (cases "href e")
      case None
      then show ?thesis by simp
    next
      case (Some h)
      with ok \<open>e \<in> set es\<close> have "isAbsoluteUrl h \<or> (startsWith h ''/'' \<and> \<not> startsWith h ''//'')"
        by blast
      from stored_url_resolved [OF this] Some show ?thesis by simp
    qed
  qed
  show "\<forall>a \<in> set (collectArticles es []). isAbsoluteUrl (url a)"
  proof
    fix a assume "a \<in> set (collectArticles es [])"
    then obtain e where e: "e \<in> set es"
      "case href e of None \<Rightarrow> False
       | Some h \<Rightarrow> str_includes h ''/knowledge-base/'' \<and> 3 < length (trim (linkText e))"
      "a = \<lparr>title = trim (linkText e),
            url = (case href e of None \<Rightarrow> [] | Some h \<Rightarrow> resolveAgainstOrigin h)\<rparr>"
      unfolding eq2 by auto
    from e(2) obtain h where h: "href e = Some h" by (cases "href e") auto
    with ok e(1) have "isAbsoluteUrl h \<or> (startsWith h ''/'' \<and> \<not> startsWith h ''//'')" by blast
    from stored_url_resolved [OF this] e(3) h show "isAbsoluteUrl (url a)" by simp
  qed
qed

theorem discovered_links_witness:
  "collectArticles (anchors demoLanding) [] =
     [\<lparr>title = ''Workspace setup'', url = ''https://learn.sessionboard.com/en/knowledge-base/setup''\<rparr>,
      \<lparr>title = ''Broken page'', url = ''https://learn.sessionboard.com/en/knowledge-base/broken''\<rparr>,
      \<lparr>title = ''Setup again'', url = ''https://learn.sessionboard.com/en/knowledge-base/setup''\<rparr>,
      \<lparr>title = ''Billing'', url = ''https://learn.sessionboard.com/en/knowledge-base/billing''\<rparr>] \<and>
   list_all (\<lambda>a. take 4 (url a) = ''http'') (collectArticles (anchors demoLanding) []) \<and>
   list_all (\<lambda>a. isAbsoluteUrl (url a)) (collectArticles (anchors demoLanding) [])"
proof -
  have ok: "\<forall>e \<in> set (anchors demoLanding). \<forall>h. href e = Some h \<longrightarrow>
        isAbsoluteUrl h \<or> (startsWith h ''/'' \<and> \<not> startsWith h ''//'')"
    by (simp add: demoLanding_def isAbsoluteUrl_def startsWith_def)
  from discovered_links [of "anchors demoLanding"]
  have e: "collectArticles (anchors demoLanding) [] =
     map (\<lambda>e. \<lparr>title = trim (linkText e),
               url = (case href e of None \<Rightarrow> []
                      | Some h \<Rightarrow> if take 4 h = ''http'' then h
                                  else ''https://learn.sessionboard.com'' @ h)\<rparr>)
       (filter (\<lambda>e. case href e of None \<Rightarrow> False
                    | Some h \<Rightarrow> str_includes h ''/knowledge-base/'' \<and> 3 < length (trim (linkText e)))
          (anchors demoLanding))"
    and b: "\<forall>a \<in> set (collectArticles (anchors demoLanding) []). take 4 (url a) = ''http''"
    by blast+
  from discovered_links [of "anchors demoLanding"] ok
  have c: "\<forall>a \<in> set (collectArticles (anchors demoLanding) []). isAbsoluteUrl (url a)"
    by blast
  have "map (\<lambda>e. \<lparr>title = trim (linkText e),
               url = (case href e of None \<Rightarrow> []
                      | Some h \<Rightarrow> if take 4 h = ''http'' then h
                                  else ''https://learn.sessionboard.com'' @ h)\<rparr>)
       (filter (\<lambda>e. case href e of None \<Rightarrow> False
                    | Some h \<Rightarrow> str_includes h ''/knowledge-base/'' \<and> 3 < length (trim (linkText e)))
          (anchors demoLanding)) =
     [\<lparr>title = ''Workspace setup'', url = ''https://learn.sessionboard.com/en/knowledge-base/setup''\<rparr>,
      \<lparr>title = ''Broken page'', url = ''https://learn.sessionboard.com/en/knowledge-base/broken''\<rparr>,
      \<lparr>title = ''Setup again'', url = ''https://learn.sessionboard.com/en/knowledge-base/setup''\<rparr>,
      \<lparr>title = ''Billing'', url = ''https://learn.sessionboard.com/en/knowledge-base/billing''\<rparr>]"
    by code_simp
  with e b c show ?thesis by (simp add: list_all_iff)
qed

text \<open>
  C8, as stated, fails: a relative \<open>href\<close> that begins with the letters \<open>http\<close> is
  stored as it is, which is not an absolute URL, and a relative \<open>href\<close> without a
  leading \<open>/\<close> is stored with the origin glued to its first segment, which is not
  the \<open>href\<close> resolved against the origin.
\<close>

theorem relative_links_glued_counterexample:
  "collectArticles
     [\<lparr>href = Some ''httpdocs/knowledge-base/y'', linkText = ''Hosting''\<rparr>,
      \<lparr>href = Some ''en/knowledge-base/rel'', linkText = ''Relative''\<rparr>] [] =
     [\<lparr>title = ''Hosting'', url = ''httpdocs/knowledge-base/y''\<rparr>,
      \<lparr>title = ''Relative'', url = ''https://learn.sessionboard.comen/knowledge-base/rel''\<rparr>] \<and>
   \<not> isAbsoluteUrl ''httpdocs/knowledge-base/y'' \<and>
   resolveAgainstOrigin ''httpdocs/knowledge-base/y'' =
     ''https://learn.sessionboard.com/httpdocs/knowledge-base/y'' \<and>
   resolveAgainstOrigin ''en/knowledge-base/rel'' =
     ''https://learn.sessionboard.com/en/knowledge-base/rel''"
  by code_simp

lemma visit_request_cases:
  "\<exists>new. requests (fst (visit net q a st)) = requests (fst st) @ new \<and>
     (filter (\<lambda>e. fst e = u) new = [] \<or>
      filter (\<lambda>e. fst e = u) new = [(u, False)] \<or>
      (filter (\<lambda>e. fst e = u) new = [(u, True)] \<and> cache (fst (visit net q a st)) u \<noteq> None))"
  by (auto simp add: visit_session split: option.splits)

lemma searchLoop_request_pattern:
  "\<exists>new k. requests (fst (searchLoop net q as st)) = requests (fst st) @ new \<and>
     (filter (\<lambda>e. fst e = u) new = replicate k (u, False) \<or>
      filter (\<lambda>e. fst e = u) new = replicate k (u, False) @ [(u, True)])"
proof (induction as arbitrary: st)
  case Nil
  have "requests (fst (searchLoop net q [] st)) = requests (fst st) @ [] \<and>
        filter (\<lambda>e. fst e = u) [] = replicate 0 (u, False)"
    by simp
  then show ?case by blast
next
  case (Cons a as)
  let ?st1 = "visit net q a st"
  from visit_request_cases [of net q a st u] obtain n1 where
    v: "requests (fst ?st1) = requests (fst st) @ n1"
    and cases: "filter (\<lambda>e. fst e = u) n1 = [] \<or>
      filter (\<lambda>e. fst e = u) n1 = [(u, False)] \<or>
      (filter (\<lambda>e. fst e = u) n1 = [(u, True)] \<and> cache (fst ?st1) u \<noteq> None)"
    by blast
  from Cons.IH [of ?st1] obtain n2 k where
    l: "requests (fst (searchLoop net q as ?st1)) = requests (fst ?st1) @ n2"
    and pat: "filter (\<lambda>e. fst e = u) n2 = replicate k (u, False) \<or>
              filter (\<lambda>e. fst e = u) n2 = replicate k (u, False) @ [(u, True)]"
    by blast
  have all: "requests (fst (searchLoop net q (a # as) st)) = requests (fst st) @ (n1 @ n2)"
    using v l by simp
  from cases consider
      (none) "filter (\<lambda>e. fst e = u) n1 = []"
    | (failed) "filter (\<lambda>e. fst e = u) n1 = [(u, False)]"
    | (stored) "filter (\<lambda>e. fst e = u) n1 = [(u, True)]" "cache (fst ?st1) u \<noteq> None"
    by blast
  then show ?case
  proof cases
    case none
    with pat have "filter (\<lambda>e. fst e = u) (n1 @ n2) = replicate k (u, False) \<or>
              filter (\<lambda>e. fst e = u) (n1 @ n2) = replicate k (u, False) @ [(u, True)]"
      by simp
    with all show ?thesis by blast
  next
    case failed
    with pat have "filter (\<lambda>e. fst e = u) (n1 @ n2) = replicate (Suc k) (u, False) \<or>
              filter (\<lambda>e. fst e = u) (n1 @ n2) = replicate (Suc k) (u, False) @ [(u, True)]"
      by auto
    with all show ?thesis by blast
  next
    case stored
    then obtain c where "cache (fst ?st1) u = Some c" by auto
    from searchLoop_cached [OF this, of net q as] obtain n2' where
      l': "requests (fst (searchLoop net q as ?st1)) = requests (fst ?st1) @ n2'" "u \<notin> fst ` set n2'"
      by blast
    from l l' have "n2' = n2" by simp
    with l'(2) have "filter (\<lambda>e. fst e = u) n2 = []" by (force simp: filter_empty_conv)
    with stored have "filter (\<lambda>e. fst e = u) (n1 @ n2) = replicate 0 (u, False) @ [(u, True)]"
      by simp
    with all show ?thesis by blast
  qed
qed

lemma pattern_one_success:
  assumes "filter (\<lambda>e. fst e = u) new = replicate k (u, False) \<or>
           filter (\<lambda>e. fst e = u) new = replicate k (u, False) @ [(u, True)]"
  shows "length (filter (\<lambda>e. e = (u, True)) new) \<le> 1"
proof -
  have e: "filter (\<lambda>e. e = (u, True)) (filter (\<lambda>e. fst e = u) new) = filter (\<lambda>e. e = (u, True)) new"
    by (induction new) auto
  have z: "filter (\<lambda>e. e = (u, True)) (replicate k (u, False)) = []"
    by (simp add: filter_empty_conv)
  from assms have "length (filter (\<lambda>e. e = (u, True)) (filter (\<lambda>e. fst e = u) new)) \<le> 1"
  proof
    assume a: "filter (\<lambda>e. fst e = u) new = replicate k (u, False)"
    show ?thesis unfolding a z by simp
  next
    assume a: "filter (\<lambda>e. fst e = u) new = replicate k (u, False) @ [(u, True)]"
    show ?thesis unfolding a filter_append z by simp
  qed
  then show ?thesis unfolding e .
qed

text \<open>
  C9, as amended. A URL whose content is in the cache keeps that content through a
  search and is not requested again. For any URL, the requests that a search sends for
  it are a run of failed requests followed by at most one successful request, and
  nothing after that one: a search makes at most one successful request for a URL. A
  successful request for a URL that is not in the cache stores the lowercased body text
  under that URL, and an article whose URL is in the cache is matched against the
  stored content without a request. A failed request leaves the cache as it was, and
  the next article with the same URL is requested again.
\<close>

theorem cache_serves_after_success:
  "(\<forall>c. cache s u = Some c \<longrightarrow>
      cache (fst (searchArticles net articles query s)) u = Some c \<and>
      u \<notin> fst ` set (drop (length (requests s)) (requests (fst (searchArticles net articles query s))))) \<and>
   (\<exists>k. filter (\<lambda>e. fst e = u)
            (drop (length (requests s)) (requests (fst (searchArticles net articles query s)))) =
          replicate k (u, False) \<or>
        filter (\<lambda>e. fst e = u)
            (drop (length (requests s)) (requests (fst (searchArticles net articles query s)))) =
          replicate k (u, False) @ [(u, True)]) \<and>
   length (filter (\<lambda>e. e = (u, True))
     (drop (length (requests s)) (requests (fst (searchArticles net articles query s))))) \<le> 1 \<and>
   (\<forall>pg. cache s (url a) = None \<and> net (length (requests s)) (url a) = Some pg \<longrightarrow>
      cache (fst (visit net q a (s, rs))) (url a) = Some (toLowerCase (bodyText pg))) \<and>
   (\<forall>c. cache s (url a) = Some c \<longrightarrow>
      visit net q a (s, rs) =
        (s\<lparr>delays := Suc (delays s)\<rparr>,
         if contentMatches c q then rs @ [withSnippet a (extractSnippet c q)] else rs)) \<and>
   (\<forall>b :: article. cache s (url a) = None \<and> net (length (requests s)) (url a) = None \<and> url b = url a \<longrightarrow>
      cache (fst (visit net q a (s, rs))) = cache s \<and>
      requests (fst (visit net q b (visit net q a (s, rs)))) =
        requests s @ [(url a, False), (url a, net (Suc (length (requests s))) (url a) \<noteq> None)])"
proof -
  let ?new = "drop (length (requests s)) (requests (fst (searchArticles net articles query s)))"
  have 1: "\<forall>c. cache s u = Some c \<longrightarrow>
      cache (fst (searchArticles net articles query s)) u = Some c \<and> u \<notin> fst ` set ?new"
  proof (intro allI impI)
    fix c assume c: "cache s u = Some c"
    then have "cache (fst (s, [] :: searchResult list)) u = Some c" by simp
    from searchLoop_cached [OF this, of net "toLowerCase query" "take 10 articles"] obtain new where
      n: "requests (fst (searchLoop net (toLowerCase query) (take 10 articles) (s, []))) = requests s @ new"
         "u \<notin> fst ` set new"
         "cache (fst (searchLoop net (toLowerCase query) (take 10 articles) (s, []))) u = Some c"
      by auto
    then show "cache (fst (searchArticles net articles query s)) u = Some c \<and> u \<notin> fst ` set ?new"
      by (simp add: searchArticles_def Let_def)
  qed
  from searchLoop_request_pattern [of net "toLowerCase query" "take 10 articles" "(s, [])" u]
  obtain new k where
    n: "requests (fst (searchLoop net (toLowerCase query) (take 10 articles) (s, []))) = requests s @ new"
    and pat: "filter (\<lambda>e. fst e = u) new = replicate k (u, False) \<or>
              filter (\<lambda>e. fst e = u) new = replicate k (u, False) @ [(u, True)]"
    by auto
  from n have new: "?new = new" by (simp add: searchArticles_def Let_def)
  from pat have 2: "\<exists>k. filter (\<lambda>e. fst e = u) ?new = replicate k (u, False) \<or>
        filter (\<lambda>e. fst e = u) ?new = replicate k (u, False) @ [(u, True)]"
    unfolding new by blast
  from pat have 3: "length (filter (\<lambda>e. e = (u, True)) ?new) \<le> 1"
    unfolding new by (rule pattern_one_success)
  have 4: "\<forall>pg. cache s (url a) = None \<and> net (length (requests s)) (url a) = Some pg \<longrightarrow>
      cache (fst (visit net q a (s, rs))) (url a) = Some (toLowerCase (bodyText pg))"
    by (simp add: visit_session)
  have 5: "\<forall>c. cache s (url a) = Some c \<longrightarrow>
      visit net q a (s, rs) =
        (s\<lparr>delays := Suc (delays s)\<rparr>,
         if contentMatches c q then rs @ [withSnippet a (extractSnippet c q)] else rs)"
    by (simp add: visit_def Let_def)
  have 6: "\<forall>b :: article. cache s (url a) = None \<and> net (length (requests s)) (url a) = None \<and> url b = url a \<longrightarrow>
      cache (fst (visit net q a (s, rs))) = cache s \<and>
      requests (fst (visit net q b (visit net q a (s, rs)))) =
        requests s @ [(url a, False), (url a, net (Suc (length (requests s))) (url a) \<noteq> None)]"
  proof (intro allI impI)
    fix b :: article
    assume h: "cache s (url a) = None \<and> net (length (requests s)) (url a) = None \<and> url b = url a"
    then have f: "fst (visit net q a (s, rs)) =
        s\<lparr>requests := requests s @ [(url a, False)], console := console s @ [''Error fetching '' @ url a @ '':'']\<rparr>"
      by (simp add: visit_session)
    show "cache (fst (visit net q a (s, rs))) = cache s \<and>
      requests (fst (visit net q b (visit net q a (s, rs)))) =
        requests s @ [(url a, False), (url a, net (Suc (length (requests s))) (url a) \<noteq> None)]"
      using h unfolding visit_session [of net q b] f
      by (auto split: option.splits)
  qed
  from 1 2 3 4 5 6 show ?thesis by blast
qed

theorem cache_serves_after_success_witness:
  "length (filter (\<lambda>e. e = (''https://learn.sessionboard.com/en/knowledge-base/setup'', True))
     (requests (fst (searchArticles demoNetwork (collectArticles (anchors demoLanding) [])
        ''Workspace'' freshSession)))) \<le> 1 \<and>
   cache (fst (searchArticles deadNetwork (collectArticles (anchors demoLanding) []) ''Workspace''
      (freshSession\<lparr>cache := [''https://learn.sessionboard.com/en/knowledge-base/setup'' \<mapsto>
                                 ''setup guide'']\<rparr>)))
     ''https://learn.sessionboard.com/en/knowledge-base/setup'' = Some ''setup guide'' \<and>
   cache (fst (visit demoNetwork ''workspace''
      \<lparr>title = ''Broken page'', url = ''https://learn.sessionboard.com/en/knowledge-base/broken''\<rparr>
      (freshSession, []))) = cache freshSession \<and>
   requests (fst (visit demoNetwork ''workspace''
      \<lparr>title = ''Broken again'', url = ''https://learn.sessionboard.com/en/knowledge-base/broken''\<rparr>
      (visit demoNetwork ''workspace''
        \<lparr>title = ''Broken page'', url = ''https://learn.sessionboard.com/en/knowledge-base/broken''\<rparr>
        (freshSession, [])))) =
     [(''https://learn.sessionboard.com/en/knowledge-base/broken'', False),
      (''https://learn.sessionboard.com/en/knowledge-base/broken'', False)] \<and>
   cache (fst (visit demoNetwork ''workspace''
      \<lparr>title = ''Workspace setup'', url = ''https://learn.sessionboard.com/en/knowledge-base/setup''\<rparr>
      (freshSession, []))) ''https://learn.sessionboard.com/en/knowledge-base/setup'' =
     Some ''setup your workspace here''"
proof -
  let ?u = "''https://learn.sessionboard.com/en/knowledge-base/setup''"
  let ?arts = "collectArticles (anchors demoLanding) []"
  let ?a = "\<lparr>title = ''Broken page'', url = ''https://learn.sessionboard.com/en/knowledge-base/broken''\<rparr>"
  let ?b = "\<lparr>title = ''Broken again'', url = ''https://learn.sessionboard.com/en/knowledge-base/broken''\<rparr>"
  let ?w = "\<lparr>title = ''Workspace setup'', url = ?u\<rparr>"
  have 0: "length (requests freshSession) = 0" "requests freshSession = []"
    by (simp_all add: freshSession_def)
  from cache_serves_after_success
    [where s = freshSession and u = ?u and net = demoNetwork and articles = ?arts
       and query = "''Workspace''"]
  have 1: "length (filter (\<lambda>e. e = (?u, True))
     (drop (length (requests freshSession))
        (requests (fst (searchArticles demoNetwork ?arts ''Workspace'' freshSession))))) \<le> 1"
    by blast
  let ?s = "freshSession\<lparr>cache := [?u \<mapsto> ''setup guide'']\<rparr>"
  have "cache ?s ?u = Some ''setup guide''" by simp
  with cache_serves_after_success
    [where s = ?s and u = ?u and net = deadNetwork and articles = ?arts and query = "''Workspace''"]
  have 2: "cache (fst (searchArticles deadNetwork ?arts ''Workspace'' ?s)) ?u = Some ''setup guide''"
    by blast
  have "cache freshSession (url ?a) = None \<and>
        demoNetwork (length (requests freshSession)) (url ?a) = None \<and> url ?b = url ?a"
    by (simp add: freshSession_def demoNetwork_def baseUrl_def)
  with cache_serves_after_success
    [where s = freshSession and a = ?a and net = demoNetwork and q = "''workspace''" and rs = "[]"]
  have 3: "cache (fst (visit demoNetwork ''workspace'' ?a (freshSession, []))) = cache freshSession \<and>
      requests (fst (visit demoNetwork ''workspace'' ?b (visit demoNetwork ''workspace'' ?a (freshSession, [])))) =
        requests freshSession @
          [(url ?a, False), (url ?a, demoNetwork (Suc (length (requests freshSession))) (url ?a) \<noteq> None)]"
    by blast
  have n: "demoNetwork (Suc 0) ''https://learn.sessionboard.com/en/knowledge-base/broken'' = None"
    by (simp add: demoNetwork_def baseUrl_def)
  have "cache freshSession (url ?w) = None \<and>
        demoNetwork (length (requests freshSession)) (url ?w) =
          Some \<lparr>anchors = [], bodyText = ''Setup your Workspace here''\<rparr>"
    by (simp add: freshSession_def demoNetwork_def baseUrl_def)
  with cache_serves_after_success
    [where s = freshSession and a = ?w and net = demoNetwork and q = "''workspace''" and rs = "[]"]
  have "cache (fst (visit demoNetwork ''workspace'' ?w (freshSession, []))) (url ?w) =
          Some (toLowerCase (bodyText \<lparr>anchors = [], bodyText = ''Setup your Workspace here''\<rparr>))"
    by blast
  moreover have "toLowerCase ''Setup your Workspace here'' = ''setup your workspace here''"
    by code_simp
  ultimately have 4: "cache (fst (visit demoNetwork ''workspace'' ?w (freshSession, []))) ?u =
          Some ''setup your workspace here''"
    by simp
  from 1 2 3 4 show ?thesis unfolding 0 by (simp add: n)
qed

text \<open>
  C9, as stated, fails: when the request for a URL fails nothing is stored, and a
  second article with the same URL is requested again.
\<close>

theorem failed_fetch_repeated_counterexample:
  "requests (fst (searchArticles deadNetwork
     [\<lparr>title = ''Workspace setup'', url = ''https://learn.sessionboard.com/en/knowledge-base/setup''\<rparr>,
      \<lparr>title = ''Setup again'', url = ''https://learn.sessionboard.com/en/knowledge-base/setup''\<rparr>]
     ''Workspace'' freshSession)) =
   [(''https://learn.sessionboard.com/en/knowledge-base/setup'', False),
    (''https://learn.sessionboard.com/en/knowledge-base/setup'', False)]"
  by code_simp

end
